theory Spec2Isabelle
  imports Main "HOL-Library.Word"
begin

section \<open>JavaScript strings\<close>

text \<open>
  A JavaScript string is a sequence of 16-bit code units. ASCII literals of the source
  are written \<open>js ''...''\<close>; the line feed and the NUL of the source's \<open>\x00\<close> escapes
  are written as code units.
\<close>

type_synonym cu = "16 word"
type_synonym jsstring = "cu list"

definition js :: "string \<Rightarrow> jsstring" where
  "js s = map (\<lambda>c. of_nat (of_char c)) s"

definition LF :: cu where
  "LF = 0x0A"

definition NUL :: cu where
  "NUL = 0x00"

text \<open>The white space of \<open>String.prototype.trim\<close> and of the class \<open>\s\<close>
  (WhiteSpace and LineTerminator code points).\<close>

definition isWhiteSpace :: "cu \<Rightarrow> bool" where
  "isWhiteSpace c \<longleftrightarrow>
     c = 0x09 \<or> c = 0x0A \<or> c = 0x0B \<or> c = 0x0C \<or> c = 0x0D \<or> c = 0x20 \<or> c = 0xA0 \<or>
     c = 0x1680 \<or> (0x2000 \<le> c \<and> c \<le> 0x200A) \<or> c = 0x2028 \<or> c = 0x2029 \<or>
     c = 0x202F \<or> c = 0x205F \<or> c = 0x3000 \<or> c = 0xFEFF"

definition isDigit :: "cu \<Rightarrow> bool" where
  "isDigit c \<longleftrightarrow> 0x30 \<le> c \<and> c \<le> 0x39"

text \<open>The word characters of \<open>\b\<close>: \<open>[A-Za-z0-9_]\<close>.\<close>

definition isWordChar :: "cu \<Rightarrow> bool" where
  "isWordChar c \<longleftrightarrow>
     (0x30 \<le> c \<and> c \<le> 0x39) \<or> (0x41 \<le> c \<and> c \<le> 0x5A) \<or> (0x61 \<le> c \<and> c \<le> 0x7A) \<or> c = 0x5F"

definition trim :: "jsstring \<Rightarrow> jsstring" where
  "trim s = rev (dropWhile isWhiteSpace (rev (dropWhile isWhiteSpace s)))"

text \<open>\<open>startsWith p s\<close>: the string \<open>s\<close> begins with \<open>p\<close>.\<close>

fun startsWith :: "jsstring \<Rightarrow> jsstring \<Rightarrow> bool" where
  "startsWith [] s = True"
| "startsWith (p # ps) [] = False"
| "startsWith (p # ps) (c # cs) = (c = p \<and> startsWith ps cs)"

text \<open>\<open>includes_str p s\<close>: the text \<open>p\<close> occurs in \<open>s\<close> (\<open>s.includes(p)\<close>).\<close>

fun includes_str :: "jsstring \<Rightarrow> jsstring \<Rightarrow> bool" where
  "includes_str p [] = startsWith p []"
| "includes_str p (c # cs) = (startsWith p (c # cs) \<or> includes_str p cs)"

text \<open>
  \<open>String.prototype.split\<close> with a string separator: the separator's occurrences are
  found from the left and do not overlap; \<open>cur\<close> holds the current field, reversed.
  An empty separator splits into single code units.
\<close>

fun split_go :: "jsstring \<Rightarrow> jsstring \<Rightarrow> jsstring \<Rightarrow> jsstring list" where
  "split_go sep cur [] = [rev cur]"
| "split_go sep cur (c # cs) =
     (if startsWith sep (c # cs) then rev cur # split_go sep [] (drop (length sep - 1) cs)
      else split_go sep (c # cur) cs)"

definition split :: "jsstring \<Rightarrow> jsstring \<Rightarrow> jsstring list" where
  "split sep s = (if sep = [] then map (\<lambda>c. [c]) s else split_go sep [] s)"

text \<open>\<open>Array.prototype.join\<close>.\<close>

fun join :: "jsstring \<Rightarrow> jsstring list \<Rightarrow> jsstring" where
  "join sep [] = []"
| "join sep [x] = x"
| "join sep (x # y # ys) = x @ sep @ join sep (y # ys)"

section \<open>Regular expressions\<close>

text \<open>
  The source's regular expressions are built from the combinators below. A matcher maps
  a state (the input left of the position with the nearest code unit first, the input from
  the position on, the captures) to the states in which a match of the pattern can end, in
  the order in which a backtracking matcher tries them; the first one is the match
  JavaScript reports. Quantifiers are applied to single code units only, as in every
  pattern of the source.
\<close>

type_synonym captures = "nat \<rightharpoonup> jsstring"
type_synonym mstate = "jsstring \<times> jsstring \<times> captures"
type_synonym matcher = "mstate \<Rightarrow> mstate list"

text \<open>One code unit of a class.\<close>

fun chr :: "(cu \<Rightarrow> bool) \<Rightarrow> matcher" where
  "chr P (b, [], k) = []"
| "chr P (b, c # cs, k) = (if P c then [(c # b, cs, k)] else [])"

text \<open>A literal.\<close>

fun lit :: "jsstring \<Rightarrow> matcher" where
  "lit [] st = [st]"
| "lit (p # ps) (b, [], k) = []"
| "lit (p # ps) (b, c # cs, k) = (if c = p then lit ps (c # b, cs, k) else [])"

text \<open>
  Under the flag \<open>i\<close> both sides are canonicalised to upper case. For the ASCII literals
  of the source only the two ASCII cases of a letter match: the canonicalisation never
  maps a code unit above 127 to one below 128.
\<close>

definition canon :: "cu \<Rightarrow> cu" where
  "canon c = (if 0x61 \<le> c \<and> c \<le> 0x7A then c - 0x20 else c)"

fun lit_i :: "jsstring \<Rightarrow> matcher" where
  "lit_i [] st = [st]"
| "lit_i (p # ps) (b, [], k) = []"
| "lit_i (p # ps) (b, c # cs, k) = (if canon c = canon p then lit_i ps (c # b, cs, k) else [])"

text \<open>Greedy \<open>*\<close> on a class: the longest run first.\<close>

fun star :: "(cu \<Rightarrow> bool) \<Rightarrow> matcher" where
  "star P (b, [], k) = [(b, [], k)]"
| "star P (b, c # cs, k) =
     (if P c then star P (c # b, cs, k) @ [(b, c # cs, k)] else [(b, c # cs, k)])"

text \<open>Lazy \<open>*?\<close> on a class: the shortest run first.\<close>

fun star_lazy :: "(cu \<Rightarrow> bool) \<Rightarrow> matcher" where
  "star_lazy P (b, [], k) = [(b, [], k)]"
| "star_lazy P (b, c # cs, k) =
     (b, c # cs, k) # (if P c then star_lazy P (c # b, cs, k) else [])"

text \<open>Sequencing: every way to end the first pattern, each continued by the second.\<close>

definition then_m :: "matcher \<Rightarrow> matcher \<Rightarrow> matcher" where
  "then_m m1 m2 st = concat (map m2 (m1 st))"

fun seqs :: "matcher list \<Rightarrow> matcher" where
  "seqs [] st = [st]"
| "seqs (m # ms) st = concat (map (seqs ms) (m st))"

definition plus_g :: "(cu \<Rightarrow> bool) \<Rightarrow> matcher" where
  "plus_g P = then_m (chr P) (star P)"

definition plus_lazy :: "(cu \<Rightarrow> bool) \<Rightarrow> matcher" where
  "plus_lazy P = then_m (chr P) (star_lazy P)"

text \<open>Greedy \<open>?\<close>.\<close>

definition opt :: "matcher \<Rightarrow> matcher" where
  "opt m st = m st @ [st]"

text \<open>A capture group: the text consumed by the pattern is stored under the group's number.\<close>

fun grp :: "nat \<Rightarrow> matcher \<Rightarrow> matcher" where
  "grp n m (b, r, k) =
     map (\<lambda>(b', r', k'). (b', r', k'(n \<mapsto> take (length r - length r') r))) (m (b, r, k))"

text \<open>The assertion \<open>\b\<close>.\<close>

fun wordb :: matcher where
  "wordb (b, r, k) =
     (if (case b of [] \<Rightarrow> False | c # _ \<Rightarrow> isWordChar c) \<noteq> (case r of [] \<Rightarrow> False | c # _ \<Rightarrow> isWordChar c)
      then [(b, r, k)] else [])"

text \<open>
  A match, as \<open>RegExp.prototype.exec\<close> returns it: the index, the matched text, the
  captures; \<open>after\<close> is the input behind the match.
\<close>

record rmatch =
  index :: nat
  whole :: jsstring
  groups :: captures
  after :: jsstring

text \<open>A group that did not take part in the match reads as \<open>undefined\<close>.\<close>

definition undefined_str :: jsstring where
  "undefined_str = js ''undefined''"

definition group_of :: "rmatch \<Rightarrow> nat \<Rightarrow> jsstring" where
  "group_of m n = (case groups m n of Some s \<Rightarrow> s | None \<Rightarrow> undefined_str)"

text \<open>The first match at the leftmost position where there is one.\<close>

fun search :: "matcher \<Rightarrow> jsstring \<Rightarrow> jsstring \<Rightarrow> rmatch option" where
  "search m b [] =
     (case m (b, [], Map.empty) of
        [] \<Rightarrow> None
      | (b', r', k') # _ \<Rightarrow> Some \<lparr>index = length b, whole = [], groups = k', after = r'\<rparr>)"
| "search m b (c # cs) =
     (case m (b, c # cs, Map.empty) of
        [] \<Rightarrow> search m (c # b) cs
      | (b', r', k') # _ \<Rightarrow>
          Some \<lparr>index = length b, whole = take (Suc (length cs) - length r') (c # cs),
                groups = k', after = r'\<rparr>)"

text \<open>\<open>str.match(re)\<close> for a pattern without the flag \<open>g\<close>.\<close>

definition match :: "matcher \<Rightarrow> jsstring \<Rightarrow> rmatch option" where
  "match m s = search m [] s"

text \<open>\<open>str.replace(re, text)\<close> for a pattern without the flag \<open>g\<close> and a replacement
  text without \<open>$\<close>: the first match is replaced.\<close>

definition replace_first :: "matcher \<Rightarrow> jsstring \<Rightarrow> jsstring \<Rightarrow> jsstring" where
  "replace_first m rep s =
     (case match m s of None \<Rightarrow> s | Some r \<Rightarrow> take (index r) s @ rep @ after r)"

text \<open>
  \<open>str.replace(re, callback)\<close> for a pattern with the flag \<open>g\<close>: the matches are taken
  from the left, each search starting where the previous match ended (one further after
  an empty match). The callback may keep a state of its own, threaded through the calls
  in the order of the matches.
\<close>

function replace_all ::
  "matcher \<Rightarrow> ('s \<Rightarrow> rmatch \<Rightarrow> jsstring \<times> 's) \<Rightarrow> 's \<Rightarrow> jsstring \<Rightarrow> jsstring \<Rightarrow> jsstring \<times> 's"
where
  "replace_all m f a b [] =
     (case m (b, [], Map.empty) of
        [] \<Rightarrow> ([], a)
      | (b', r', k') # _ \<Rightarrow> f a \<lparr>index = length b, whole = [], groups = k', after = r'\<rparr>)"
| "replace_all m f a b (c # cs) =
     (case m (b, c # cs, Map.empty) of
        [] \<Rightarrow> (case replace_all m f a (c # b) cs of (out, a') \<Rightarrow> (c # out, a'))
      | (b', r', k') # _ \<Rightarrow>
          (case f a \<lparr>index = length b, whole = take (Suc (length cs) - length r') (c # cs),
                     groups = k', after = r'\<rparr> of
             (rep, a1) \<Rightarrow>
               if Suc (length cs) - length r' = 0
               then (case replace_all m f a1 (c # b) cs of (out, a2) \<Rightarrow> (rep @ c # out, a2))
               else (case replace_all m f a1
                            (rev (take (Suc (length cs) - length r') (c # cs)) @ b)
                            (drop (length cs - length r') cs) of
                       (out, a2) \<Rightarrow> (rep @ out, a2))))"
  by pat_completeness auto
termination
  by (relation "measure (\<lambda>(m, f, a, b, s). length s)") auto

text \<open>The same with a replacement that keeps no state.\<close>

definition replace_g :: "matcher \<Rightarrow> (rmatch \<Rightarrow> jsstring) \<Rightarrow> jsstring \<Rightarrow> jsstring" where
  "replace_g m f s = fst (replace_all m (\<lambda>a r. (f r, a)) () [] s)"

section \<open>The URL deriver\<close>

definition notSlash :: "cu \<Rightarrow> bool" where
  "notSlash c \<longleftrightarrow> c \<noteq> 0x2F"

text \<open>\<open>/https?:\/\/([^\/]+)\.([^\/]+)\/test\/read\.cgi\/([^\/]+)\/(\d+)/\<close>\<close>

definition url_re :: matcher where
  "url_re = seqs [lit (js ''http''), opt (lit (js ''s'')), lit (js ''://''),
                  grp 1 (plus_g notSlash), lit (js ''.''), grp 2 (plus_g notSlash),
                  lit (js ''/test/read.cgi/''), grp 3 (plus_g notSlash), lit (js ''/''),
                  grp 4 (plus_g isDigit)]"

text \<open>
  \<open>convertToDatUrl\<close>; \<open>None\<close> is the source's \<open>null\<close>. The \<open>try\<close> of the source covers
  only total string operations, so its \<open>catch\<close> branch is never taken.
\<close>

definition convertToDatUrl :: "jsstring \<Rightarrow> bool \<Rightarrow> jsstring option" where
  "convertToDatUrl url isDatOchi =
     (case match url_re url of
        None \<Rightarrow> None
      | Some m \<Rightarrow>
          (let server = group_of m 1; domain = group_of m 2; board = group_of m 3; threadId = group_of m 4 in
           if length threadId < 5 then None
           else if isDatOchi then
             (if domain = js ''5ch.net'' \<or> domain = js ''bbspink.com'' then
                (let first4 = take 4 threadId in
                 Some (js ''https://'' @ server @ js ''.'' @ domain @ js ''/'' @ board @
                       js ''/oyster/'' @ first4 @ js ''/'' @ threadId @ js ''.dat''))
              else
                (let first4 = take 4 threadId; first5 = take 5 threadId in
                 Some (js ''https://'' @ server @ js ''.'' @ domain @ js ''/'' @ board @
                       js ''/kako/'' @ first4 @ js ''/'' @ first5 @ js ''/'' @ threadId @ js ''.dat'')))
           else
             Some (js ''https://'' @ server @ js ''.'' @ domain @ js ''/'' @ board @
                   js ''/dat/'' @ threadId @ js ''.dat'')))"

section \<open>Posts and the dat format\<close>

record post =
  name :: jsstring
  mail :: jsstring
  date :: jsstring
  id_post :: jsstring
  message :: jsstring

text \<open>The placeholder name of the dat parser, five code units (U+540D U+7121 U+3057 U+3055 U+3093).\<close>

definition nanashi :: jsstring where
  "nanashi = [0x540D, 0x7121, 0x3057, 0x3055, 0x3093]"

definition notWhiteSpace :: "cu \<Rightarrow> bool" where
  "notWhiteSpace c \<longleftrightarrow> \<not> isWhiteSpace c"

text \<open>\<open>/ID:([^\s]+)/\<close> and \<open>/ID:[^\s]+/\<close>\<close>

definition id_re :: matcher where
  "id_re = seqs [lit (js ''ID:''), grp 1 (plus_g notWhiteSpace)]"

definition id_re0 :: matcher where
  "id_re0 = seqs [lit (js ''ID:''), plus_g notWhiteSpace]"

text \<open>\<open>/<br>/g\<close>\<close>

definition br_re :: matcher where
  "br_re = lit (js ''<br>'')"

text \<open>
  The body of the \<open>forEach\<close> of \<open>parseDatFile\<close>: one line is split and, when it has at
  least four parts, a post is pushed. \<open>linePost\<close> is the object pushed; it reads the parts
  0 to 3 and is built under the length check only. The two pages of the repository differ
  in the message only, which is the parameter \<open>msg\<close>.
\<close>

definition linePost :: "(jsstring \<Rightarrow> jsstring) \<Rightarrow> jsstring list \<Rightarrow> post" where
  "linePost msg parts =
     (let name = parts ! 0;
          mail = parts ! 1;
          dateAndId = parts ! 2;
          message = msg (parts ! 3);
          idMatch = match id_re dateAndId;
          id = (case idMatch of Some m \<Rightarrow> group_of m 1 | None \<Rightarrow> []);
          date = trim (replace_first id_re0 [] dateAndId)
      in \<lparr>name = (if name \<noteq> [] then name else nanashi), mail = mail, date = date,
          id_post = id, message = message\<rparr>)"

definition pushLine :: "(jsstring \<Rightarrow> jsstring) \<Rightarrow> post list \<Rightarrow> jsstring \<Rightarrow> post list" where
  "pushLine msg parsedPosts line =
     (let parts = split (js ''<>'') line in
      if length parts \<ge> 4 then parsedPosts @ [linePost msg parts] else parsedPosts)"

definition parseDat_with :: "(jsstring \<Rightarrow> jsstring) \<Rightarrow> jsstring \<Rightarrow> post list" where
  "parseDat_with msg content =
     (let lines = filter (\<lambda>line. trim line \<noteq> []) (split [LF] content)
      in foldl (pushLine msg) [] lines)"

text \<open>\<open>parseDatFile\<close> of the page with the HTML conversion: the message is kept as it is.\<close>

definition parseDatFile :: "jsstring \<Rightarrow> post list" where
  "parseDatFile content = parseDat_with (\<lambda>m. m) content"

text \<open>\<open>parseDatFile\<close> of \<open>src/app/page.tsx\<close>: every \<open><br>\<close> of the message becomes a line feed.\<close>

definition parseDatFile_page :: "jsstring \<Rightarrow> post list" where
  "parseDatFile_page content = parseDat_with (replace_g br_re (\<lambda>r. [LF])) content"

text \<open>The serialisation inside \<open>convertHtmlToDat\<close>.\<close>

definition datLine :: "post \<Rightarrow> jsstring" where
  "datLine p =
     name p @ js ''<>'' @ mail p @ js ''<>'' @ date p @
     (if id_post p \<noteq> [] then js '' ID:'' @ id_post p else []) @ js ''<>'' @ message p @ js ''<>''"

definition datContent :: "post list \<Rightarrow> jsstring" where
  "datContent posts =
     (let datLines = map datLine posts
      in join [LF] datLines @ (if length datLines > 0 then [LF] else []))"

section \<open>The HTML parser\<close>

definition notGt :: "cu \<Rightarrow> bool" where
  "notGt c \<longleftrightarrow> c \<noteq> 0x3E"

definition notLt :: "cu \<Rightarrow> bool" where
  "notLt c \<longleftrightarrow> c \<noteq> 0x3C"

text \<open>The class \<open>[^"]\<close>; the double quote is the code unit 34.\<close>

definition notDQ :: "cu \<Rightarrow> bool" where
  "notDQ c \<longleftrightarrow> c \<noteq> 0x22"

definition anyChar :: "cu \<Rightarrow> bool" where
  "anyChar c \<longleftrightarrow> True"

text \<open>Decimal digits of a number (\<open>${n}\<close>) and \<open>parseInt\<close> on a run of digits.\<close>

function dec :: "nat \<Rightarrow> jsstring" where
  "dec n = (if n < 10 then [0x30 + of_nat n] else dec (n div 10) @ [0x30 + of_nat (n mod 10)])"
  by pat_completeness auto
termination
  by (relation "measure (\<lambda>n. n)") auto

declare dec.simps [simp del]

definition parseInt :: "jsstring \<Rightarrow> nat" where
  "parseInt ds = foldl (\<lambda>a c. 10 * a + unat (c - 0x30)) 0 ds"

text \<open>\<open>/<\/?wbr\s*\/?>/gi\<close>\<close>

definition wbr_re :: matcher where
  "wbr_re = seqs [lit_i (js ''<''), opt (lit_i (js ''/'')), lit_i (js ''wbr''), star isWhiteSpace,
                  opt (lit_i (js ''/'')), lit_i (js ''>'')]"

text \<open>\<open>/<br\s*\/?>/gi\<close>\<close>

definition br_any_re :: matcher where
  "br_any_re = seqs [lit_i (js ''<br''), star isWhiteSpace, opt (lit_i (js ''/'')), lit_i (js ''>'')]"

text \<open>\<open>/<a\b([^>]*?)>([\s\S]*?)<\/a>/gi\<close>\<close>

definition anchor_re :: matcher where
  "anchor_re = seqs [lit_i (js ''<a''), wordb, grp 1 (star_lazy notGt), lit_i (js ''>''),
                     grp 2 (star_lazy anyChar), lit_i (js ''</a>'')]"

text \<open>\<open>/\bhref="([^"]+)"/i\<close>\<close>

definition href_re :: matcher where
  \<open>href_re = seqs [wordb, lit_i (js ''href="''), grp 1 (plus_g notDQ), lit_i (js ''"'')]\<close>

text \<open>\<open>/<[^>]+>/g\<close>, \<open>/\r/g\<close>, \<open>/\x00BR\x00/g\<close>, \<open>/\x00A(\d+)\x00/g\<close>,
  \<open>/[ \t\f\v]+/g\<close> and \<open>/ ?<br> ?/g\<close>\<close>

definition tag_re :: matcher where
  "tag_re = seqs [lit (js ''<''), plus_g notGt, lit (js ''>'')]"

definition cr_re :: matcher where
  "cr_re = lit [0x0D]"

definition brmark :: jsstring where
  "brmark = [NUL] @ js ''BR'' @ [NUL]"

definition brmark_re :: matcher where
  "brmark_re = lit brmark"

definition amark_re :: matcher where
  "amark_re = seqs [lit ([NUL] @ js ''A''), grp 1 (plus_g isDigit), lit [NUL]]"

definition isHSpace :: "cu \<Rightarrow> bool" where
  "isHSpace c \<longleftrightarrow> c = 0x20 \<or> c = 0x09 \<or> c = 0x0C \<or> c = 0x0B"

definition hspace_re :: matcher where
  "hspace_re = plus_g isHSpace"

definition brsp_re :: matcher where
  "brsp_re = seqs [opt (lit (js '' '')), lit (js ''<br>''), opt (lit (js '' ''))]"

text \<open>The callback of the anchor replacement; its state is the array \<open>anchors\<close>.\<close>

definition anchor_cb :: "jsstring list \<Rightarrow> rmatch \<Rightarrow> jsstring \<times> jsstring list" where
  \<open>anchor_cb anchors r =
     (let attrs = group_of r 1;
          inner = group_of r 2;
          hrefMatch = match href_re attrs;
          href = (case hrefMatch of Some h \<Rightarrow> group_of h 1 | None \<Rightarrow> []);
          tag = (if href \<noteq> [] then js ''<a href="'' @ href @ js ''">'' @ inner @ js ''</a>''
                 else inner);
          anchors' = anchors @ [tag]
      in ([NUL] @ js ''A'' @ dec (length anchors' - 1) @ [NUL], anchors'))\<close>

text \<open>The callback of the anchor restoration; an index outside the array reads as
  \<open>undefined\<close>.\<close>

definition restore_cb :: "jsstring list \<Rightarrow> rmatch \<Rightarrow> jsstring" where
  "restore_cb anchors r =
     (let i = parseInt (group_of r 1) in if i < length anchors then anchors ! i else undefined_str)"

definition stripTagsKeepBrA :: "jsstring \<Rightarrow> jsstring" where
  "stripTagsKeepBrA bodyHtml =
     (let b1 = replace_g wbr_re (\<lambda>r. []) bodyHtml;
          b2 = replace_g br_any_re (\<lambda>r. js ''<br>'') b1;
          (b3, anchors) = replace_all anchor_re anchor_cb [] [] b2;
          b4 = replace_g br_re (\<lambda>r. brmark) b3;
          b5 = replace_g tag_re (\<lambda>r. []) b4;
          b6 = replace_g cr_re (\<lambda>r. []) b5;
          b7 = replace_g brmark_re (\<lambda>r. js ''<br>'') b6;
          b8 = replace_g amark_re (restore_cb anchors) b7;
          b9 = replace_g hspace_re (\<lambda>r. js '' '') b8;
          b10 = replace_g brsp_re (\<lambda>r. js ''<br>'') b9
      in trim b10)"

text \<open>\<open>/href="mailto:([^"]*)"/i\<close>, \<open>/<span\s+class="postusername">([\s\S]*?)<\/span>/i\<close>
  and \<open>/>([^<]+)<\/a>/i\<close>\<close>

definition mail_re :: matcher where
  \<open>mail_re = seqs [lit_i (js ''href="mailto:''), grp 1 (star notDQ), lit_i (js ''"'')]\<close>

definition username_re :: matcher where
  \<open>username_re = seqs [lit_i (js ''<span''), plus_g isWhiteSpace,
                       lit_i (js ''class="postusername">''),
                       grp 1 (star_lazy anyChar), lit_i (js ''</span>'')]\<close>

definition nameanchor_re :: matcher where
  "nameanchor_re = seqs [lit_i (js ''>''), grp 1 (plus_g notLt), lit_i (js ''</a>'')]"

text \<open>
  \<open>unescapeHtml\<close> reads the text back from a \<open>textarea\<close> element of the host's DOM; it is
  the parameter \<open>unescapeHtml\<close> of the functions below.
\<close>

definition extractNameAndMail :: "(jsstring \<Rightarrow> jsstring) \<Rightarrow> jsstring \<Rightarrow> jsstring \<times> jsstring" where
  "extractNameAndMail unescapeHtml postHtml =
     (let mailMatch = match mail_re postHtml;
          mail = (case mailMatch of Some m \<Rightarrow> trim (unescapeHtml (group_of m 1)) | None \<Rightarrow> []);
          usernameMatch = match username_re postHtml;
          name0 = (case usernameMatch of
                     None \<Rightarrow> []
                   | Some u \<Rightarrow>
                       (let block = group_of u 1; anchorMatch = match nameanchor_re block in
                        case anchorMatch of
                          Some a \<Rightarrow> group_of a 1
                        | None \<Rightarrow> replace_g tag_re (\<lambda>r. []) block));
          name = trim (unescapeHtml name0)
      in (name, mail))"

text \<open>\<open>matchAll\<close> with a pattern with the flag \<open>g\<close>: all matches from the left.\<close>

function match_all :: "matcher \<Rightarrow> jsstring \<Rightarrow> jsstring \<Rightarrow> rmatch list" where
  "match_all m b [] =
     (case m (b, [], Map.empty) of
        [] \<Rightarrow> []
      | (b', r', k') # _ \<Rightarrow> [\<lparr>index = length b, whole = [], groups = k', after = r'\<rparr>])"
| "match_all m b (c # cs) =
     (case m (b, c # cs, Map.empty) of
        [] \<Rightarrow> match_all m (c # b) cs
      | (b', r', k') # _ \<Rightarrow>
          \<lparr>index = length b, whole = take (Suc (length cs) - length r') (c # cs),
           groups = k', after = r'\<rparr> #
          (if Suc (length cs) - length r' = 0 then match_all m (c # b) cs
           else match_all m (rev (take (Suc (length cs) - length r') (c # cs)) @ b)
                  (drop (length cs - length r') cs)))"
  by pat_completeness auto
termination
  by (relation "measure (\<lambda>(m, b, s). length s)") auto

text \<open>\<open>String.prototype.substring\<close>.\<close>

definition substring :: "jsstring \<Rightarrow> nat \<Rightarrow> nat \<Rightarrow> jsstring" where
  "substring s i j =
     (let a = min (min i j) (length s); e = min (max i j) (length s) in take (e - a) (drop a s))"

text \<open>\<open>/<div\s+id="(\d+)"[^>]*\bclass="[^"]*\bpost\b[^"]*"[^>]*>/gi\<close>\<close>

definition divPostRegex :: matcher where
  \<open>divPostRegex = seqs [lit_i (js ''<div''), plus_g isWhiteSpace, lit_i (js ''id="''),
                        grp 1 (plus_g isDigit), lit_i (js ''"''), star notGt, wordb,
                        lit_i (js ''class="''), star notDQ, wordb, lit_i (js ''post''), wordb,
                        star notDQ, lit_i (js ''"''), star notGt, lit_i (js ''>'')]\<close>

text \<open>\<open>/<span\s+class="date">\s*([^<]+?)\s*<\/span>/i\<close>,
  \<open>/<span\s+class="uid">\s*ID:([^<]+?)\s*<\/span>/i\<close> and
  \<open>/<section\s+class="post-content">([\s\S]*?)<\/section>/i\<close>\<close>

definition date_re :: matcher where
  \<open>date_re = seqs [lit_i (js ''<span''), plus_g isWhiteSpace,
                   lit_i (js ''class="date">''), star isWhiteSpace,
                   grp 1 (plus_lazy notLt), star isWhiteSpace, lit_i (js ''</span>'')]\<close>

definition uid_re :: matcher where
  \<open>uid_re = seqs [lit_i (js ''<span''), plus_g isWhiteSpace,
                  lit_i (js ''class="uid">''), star isWhiteSpace,
                  lit_i (js ''ID:''), grp 1 (plus_lazy notLt), star isWhiteSpace, lit_i (js ''</span>'')]\<close>

definition content_re :: matcher where
  \<open>content_re = seqs [lit_i (js ''<section''), plus_g isWhiteSpace,
                      lit_i (js ''class="post-content">''),
                      grp 1 (star_lazy anyChar), lit_i (js ''</section>'')]\<close>

text \<open>The body of the loop of \<open>parseHtmlPosts\<close>: the post of one block.\<close>

definition blockPost :: "(jsstring \<Rightarrow> jsstring) \<Rightarrow> jsstring \<Rightarrow> post" where
  "blockPost unescapeHtml block =
     (let (name, mail) = extractNameAndMail unescapeHtml block;
          dateMatch = match date_re block;
          date = (case dateMatch of Some d \<Rightarrow> trim (unescapeHtml (group_of d 1)) | None \<Rightarrow> []);
          uidMatch = match uid_re block;
          id = (case uidMatch of Some u \<Rightarrow> trim (unescapeHtml (group_of u 1)) | None \<Rightarrow> []);
          contentMatch = match content_re block;
          bodyHtml = (case contentMatch of Some c \<Rightarrow> group_of c 1 | None \<Rightarrow> []);
          message = stripTagsKeepBrA bodyHtml
      in \<lparr>name = (if name \<noteq> [] then name else []), mail = mail, date = date, id_post = id,
          message = message\<rparr>)"

text \<open>The loop over the matches: each block runs from its match to the next one, the last
  to the end of the text.\<close>

fun htmlBlocks :: "jsstring \<Rightarrow> rmatch list \<Rightarrow> jsstring list" where
  "htmlBlocks htmlText [] = []"
| "htmlBlocks htmlText [m] = [substring htmlText (index m) (length htmlText)]"
| "htmlBlocks htmlText (m # m' # ms) =
     substring htmlText (index m) (index m') # htmlBlocks htmlText (m' # ms)"

definition parseHtmlPosts :: "(jsstring \<Rightarrow> jsstring) \<Rightarrow> jsstring \<Rightarrow> post list" where
  "parseHtmlPosts unescapeHtml htmlText =
     (let matches = match_all divPostRegex [] htmlText
      in map (blockPost unescapeHtml) (htmlBlocks htmlText matches))"

text \<open>\<open>/<link\s+rel="canonical"\s+href="([^"]+)"/i\<close> and \<open>/\/read\.cgi\/[^\/]+\/(\d+)\//\<close>\<close>

definition canonical_re :: matcher where
  \<open>canonical_re = seqs [lit_i (js ''<link''), plus_g isWhiteSpace,
                        lit_i (js ''rel="canonical"''), plus_g isWhiteSpace,
                        lit_i (js ''href="''), grp 1 (plus_g notDQ), lit_i (js ''"'')]\<close>

definition key_re :: matcher where
  "key_re = seqs [lit (js ''/read.cgi/''), plus_g notSlash, lit (js ''/''), grp 1 (plus_g isDigit),
                  lit (js ''/'')]"

definition extractThreadKey :: "jsstring \<Rightarrow> jsstring" where
  "extractThreadKey htmlText =
     (case match canonical_re htmlText of
        None \<Rightarrow> []
      | Some cm \<Rightarrow>
          (case match key_re (group_of cm 1) of
             None \<Rightarrow> []
           | Some km \<Rightarrow> group_of km 1))"

definition convertHtmlToDat :: "(jsstring \<Rightarrow> jsstring) \<Rightarrow> jsstring \<Rightarrow> jsstring \<times> jsstring" where
  "convertHtmlToDat unescapeHtml htmlText =
     (let posts = parseHtmlPosts unescapeHtml htmlText;
          threadKey = extractThreadKey htmlText
      in (datContent posts, threadKey))"

section \<open>Properties: splitting and joining\<close>

lemma js_sep: "js ''<>'' = [0x3C, 0x3E]"
  by (simp add: js_def)

lemma startsWith_take: "startsWith p s \<longleftrightarrow> take (length p) s = p"
  by (induction p s rule: startsWith.induct) auto

lemma split_go_nonempty: "split_go sep cur s \<noteq> []"
  by (induction sep cur s rule: split_go.induct) auto

lemma split_go_no_sep:
  "\<not> includes_str sep p \<Longrightarrow> split_go sep cur p = [rev cur @ p]"
  by (induction p arbitrary: cur) auto

lemma split_go_field:
  assumes "\<not> includes_str [0x3C, 0x3E] p"
  shows "split_go [0x3C, 0x3E] cur (p @ [0x3C, 0x3E] @ r) = (rev cur @ p) # split_go [0x3C, 0x3E] [] r"
  using assms
proof (induction p arbitrary: cur)
  case Nil
  then show ?case by simp
next
  case (Cons c cs)
  then show ?case by (cases cs) auto
qed

lemma split_go_char:
  "c \<notin> set p \<Longrightarrow> split_go [c] cur (p @ c # r) = (rev cur @ p) # split_go [c] [] r"
  by (induction p arbitrary: cur) auto

lemma foldl_pushLine:
  "foldl (pushLine msg) acc ls =
     acc @ map (\<lambda>l. linePost msg (split (js ''<>'') l))
               (filter (\<lambda>l. 4 \<le> length (split (js ''<>'') l)) ls)"
  by (induction ls arbitrary: acc) (simp_all add: pushLine_def Let_def)

lemma parseDat_with_map:
  "parseDat_with msg content =
     map (\<lambda>l. linePost msg (split (js ''<>'') l))
         (filter (\<lambda>l. trim l \<noteq> [] \<and> 4 \<le> length (split (js ''<>'') l)) (split [LF] content))"
  by (simp add: parseDat_with_def foldl_pushLine Let_def)

lemma name_linePost:
  "name (linePost msg parts) = (if parts ! 0 = [] then nanashi else parts ! 0)"
  by (simp add: linePost_def Let_def)

lemma last_split_go_sep:
  "last (split_go [0x3C, 0x3E] cur (s @ [0x3C, 0x3E])) = []"
proof (induction s arbitrary: cur rule: length_induct)
  case (1 s)
  show ?case
  proof (cases s)
    case Nil
    then show ?thesis by simp
  next
    case (Cons c t)
    have eq: "split_go [0x3C, 0x3E] cur (s @ [0x3C, 0x3E]) =
                (if startsWith [0x3C, 0x3E] (c # t @ [0x3C, 0x3E])
                 then rev cur # split_go [0x3C, 0x3E] [] (drop 1 (t @ [0x3C, 0x3E]))
                 else split_go [0x3C, 0x3E] (c # cur) (t @ [0x3C, 0x3E]))"
      by (simp add: Cons)
    show ?thesis
    proof (cases "startsWith [0x3C, 0x3E] (c # t @ [0x3C, 0x3E])")
      case True
      then obtain ds where t: "t = 0x3E # ds"
        by (cases t) auto
      have "length ds < length s" by (simp add: Cons t)
      with 1 have "last (split_go [0x3C, 0x3E] [] (ds @ [0x3C, 0x3E])) = []" by blast
      with True show ?thesis
        by (simp only: eq if_True) (simp add: t split_go_nonempty del: split_go.simps)
    next
      case False
      have "length t < length s" by (simp add: Cons)
      with 1 have "last (split_go [0x3C, 0x3E] (c # cur) (t @ [0x3C, 0x3E])) = []" by blast
      with False show ?thesis by (simp only: eq if_False)
    qed
  qed
qed

lemma join_snoc_sep:
  "join sep (x # xs) @ sep = x @ sep @ (if xs = [] then [] else join sep xs @ sep)"
  by (cases xs) auto

lemma datContent_concat: "datContent posts = concat (map (\<lambda>p. datLine p @ [LF]) posts)"
proof (induction posts)
  case Nil
  show ?case by (simp add: datContent_def)
next
  case (Cons p ps)
  have "datContent (p # ps) = join [LF] (datLine p # map datLine ps) @ [LF]"
    by (simp add: datContent_def Let_def)
  also have "\<dots> = datLine p @ [LF] @ (if map datLine ps = [] then [] else join [LF] (map datLine ps) @ [LF])"
    by (rule join_snoc_sep)
  also have "(if map datLine ps = [] then [] else join [LF] (map datLine ps) @ [LF]) = datContent ps"
    by (simp add: datContent_def Let_def)
  finally show ?case by (simp add: Cons.IH)
qed

lemma includes_sep_snoc:
  "includes_str [0x3C, 0x3E] (xs @ [c]) \<longleftrightarrow>
     includes_str [0x3C, 0x3E] xs \<or> (xs \<noteq> [] \<and> last xs = 0x3C \<and> c = 0x3E)"
proof (induction xs)
  case Nil
  show ?case by simp
next
  case (Cons x xs)
  then show ?case by (cases xs) auto
qed

lemma split_go_fields_clean:
  "sep = [0x3C, 0x3E] \<Longrightarrow> \<not> includes_str sep (rev cur) \<Longrightarrow>
   (cur \<noteq> [] \<and> hd cur = 0x3C \<longrightarrow> s = [] \<or> hd s \<noteq> 0x3E) \<Longrightarrow>
   \<forall>f \<in> set (split_go sep cur s). \<not> includes_str sep f"
proof (induction sep cur s rule: split_go.induct)
  case (1 sep cur)
  then show ?case by simp
next
  case (2 sep cur c cs)
  show ?case
  proof (cases "startsWith sep (c # cs)")
    case True
    have "\<forall>f \<in> set (split_go sep [] (drop (length sep - 1) cs)). \<not> includes_str sep f"
      using 2(1)[OF True 2(3)] 2(3) by simp
    with True 2(4) show ?thesis by simp
  next
    case False
    have nc: "cur \<noteq> [] \<Longrightarrow> hd cur = 0x3C \<Longrightarrow> c \<noteq> 0x3E"
      using 2(5) by simp
    have la: "rev cur \<noteq> [] \<Longrightarrow> last (rev cur) = hd cur"
      by (simp add: last_rev)
    have "\<not> includes_str [0x3C, 0x3E] (rev cur @ [c])"
      unfolding includes_sep_snoc using 2(3,4) nc la by auto
    then have a: "\<not> includes_str sep (rev (c # cur))"
      using 2(3) by simp
    have b: "c # cur \<noteq> [] \<and> hd (c # cur) = 0x3C \<longrightarrow> cs = [] \<or> hd cs \<noteq> 0x3E"
      using False 2(3) by (cases cs) auto
    from 2(2)[OF False 2(3) a b] False show ?thesis by simp
  qed
qed

lemma split_fields_clean:
  "\<forall>f \<in> set (split (js ''<>'') s). \<not> includes_str (js ''<>'') f"
  using split_go_fields_clean[of "[0x3C, 0x3E]" "[]" s]
  by (simp add: split_def js_sep)

lemma split_join_clean:
  "fs \<noteq> [] \<Longrightarrow> \<forall>f \<in> set fs. \<not> includes_str (js ''<>'') f \<Longrightarrow>
   split (js ''<>'') (join (js ''<>'') fs) = fs"
proof (induction fs)
  case Nil
  then show ?case by simp
next
  case (Cons f fs)
  show ?case
  proof (cases fs)
    case Nil
    with Cons.prems show ?thesis
      by (simp add: split_def js_sep split_go_no_sep del: split_go.simps)
  next
    case (Cons g gs)
    with Cons.prems Cons.IH have ih: "split_go [0x3C, 0x3E] [] (join [0x3C, 0x3E] fs) = fs"
      by (simp add: split_def js_sep)
    have "split_go [0x3C, 0x3E] [] (f @ [0x3C, 0x3E] @ join [0x3C, 0x3E] fs) =
            (rev [] @ f) # split_go [0x3C, 0x3E] [] (join [0x3C, 0x3E] fs)"
      using Cons.prems by (intro split_go_field) (simp add: js_sep)
    with ih Cons show ?thesis
      by (simp add: split_def js_sep del: split_go.simps)
  qed
qed

lemma split_go_field_cons:
  "\<not> includes_str [0x3C, 0x3E] p \<Longrightarrow>
   split_go [0x3C, 0x3E] cur (p @ 0x3C # 0x3E # r) = (rev cur @ p) # split_go [0x3C, 0x3E] [] r"
  using split_go_field[of p cur r] by simp

lemma linePost_take4:
  "4 \<le> length parts \<Longrightarrow> linePost msg (take 4 parts) = linePost msg parts"
  by (simp add: linePost_def)

lemma pushLine_truncate:
  assumes "4 \<le> length (split (js ''<>'') line)"
  shows "pushLine msg posts (join (js ''<>'') (take 4 (split (js ''<>'') line))) = pushLine msg posts line"
proof -
  let ?parts = "split (js ''<>'') line"
  have ne: "take 4 ?parts \<noteq> []" using assms by auto
  have cl: "\<forall>f \<in> set (take 4 ?parts). \<not> includes_str (js ''<>'') f"
    using split_fields_clean[of line] by (meson in_set_takeD)
  have "split (js ''<>'') (join (js ''<>'') (take 4 ?parts)) = take 4 ?parts"
    by (rule split_join_clean[OF ne cl])
  then show ?thesis using assms
    by (simp add: pushLine_def Let_def linePost_take4)
qed

lemma split_four_fields:
  assumes "\<not> includes_str (js ''<>'') f0" "\<not> includes_str (js ''<>'') f1"
          "\<not> includes_str (js ''<>'') f2" "\<not> includes_str (js ''<>'') f3"
  shows "split (js ''<>'') (f0 @ js ''<>'' @ f1 @ js ''<>'' @ f2 @ js ''<>'' @ f3 @ js ''<>'' @ t) =
           f0 # f1 # f2 # f3 # split (js ''<>'') t"
  using assms
  by (simp add: split_def js_sep split_go_field_cons del: split_go.simps)

section \<open>Properties: the dat serialisation\<close>

text \<open>
  Claim C6. The serialisation maps each post to the line
  \<open>name<>mail<>date[ ID:id]<>message<>\<close> (the part \<open> ID:id\<close> only for a non-empty id),
  each line followed by one line feed: the lines are joined by line feeds and one more
  follows when there is a post; for no posts the result is empty. Split on \<open><>\<close>, the
  last field of every line is the empty string.
\<close>

theorem datContent_format:
  "datContent [] = [] \<and>
   datContent posts =
     concat (map (\<lambda>p. name p @ js ''<>'' @ mail p @ js ''<>'' @ date p @
                        (if id_post p \<noteq> [] then js '' ID:'' @ id_post p else []) @
                        js ''<>'' @ message p @ js ''<>'' @ [LF]) posts) \<and>
   (posts \<noteq> [] \<longrightarrow> datContent posts = join [LF] (map datLine posts) @ [LF]) \<and>
   (\<forall>p \<in> set posts. last (split (js ''<>'') (datLine p)) = [])"
proof -
  have a: "datContent [] = []" by (simp add: datContent_def)
  have b: "datContent posts =
     concat (map (\<lambda>p. name p @ js ''<>'' @ mail p @ js ''<>'' @ date p @
                        (if id_post p \<noteq> [] then js '' ID:'' @ id_post p else []) @
                        js ''<>'' @ message p @ js ''<>'' @ [LF]) posts)"
    by (simp add: datContent_concat datLine_def)
  have c: "posts \<noteq> [] \<longrightarrow> datContent posts = join [LF] (map datLine posts) @ [LF]"
    by (simp add: datContent_def Let_def)
  have d: "last (split (js ''<>'') (datLine p)) = []" for p
  proof -
    have "split (js ''<>'') (datLine p) =
            split_go [0x3C, 0x3E] []
              ((name p @ js ''<>'' @ mail p @ js ''<>'' @ date p @
                (if id_post p \<noteq> [] then js '' ID:'' @ id_post p else []) @
                js ''<>'' @ message p) @ [0x3C, 0x3E])"
      by (simp add: datLine_def js_sep split_def del: split_go.simps)
    then show ?thesis by (simp only: last_split_go_sep)
  qed
  from a b c d show ?thesis by blast
qed

theorem datContent_format_witness:
  "[\<lparr>name = js ''a'', mail = [], date = js ''d'', id_post = js ''x'', message = js ''m''\<rparr>] \<noteq> [] \<and>
   datContent [\<lparr>name = js ''a'', mail = [], date = js ''d'', id_post = js ''x'', message = js ''m''\<rparr>] =
     js ''a<><>d ID:x<>m<>'' @ [LF] \<and>
   last (split (js ''<>'')
          (datLine \<lparr>name = js ''a'', mail = [], date = js ''d'', id_post = js ''x'', message = js ''m''\<rparr>)) = []"
  using datContent_format
    [of "[\<lparr>name = js ''a'', mail = [], date = js ''d'', id_post = js ''x'', message = js ''m''\<rparr>]"]
  by (simp add: datLine_def js_def)

section \<open>Properties: tag normalisation\<close>

text \<open>
  Claim C5. On the input \<open>a<br>b<span>c</span><a href="x">d</a>\<close> the normalisation
  returns \<open>a<br>bc<a href="x">d</a>\<close>: the break is kept, the span tags are removed and
  their text kept, the anchor is rebuilt with its href and its content.
\<close>

theorem stripTagsKeepBrA_example:
  \<open>stripTagsKeepBrA (js ''a<br>b<span>c</span><a href="x">d</a>'') = js ''a<br>bc<a href="x">d</a>''\<close>
  by code_simp

section \<open>Properties: the dat parser\<close>

lemma nanashi_nonempty: "nanashi \<noteq> []"
  by (simp add: nanashi_def)

lemma parseDat_with_name_nonempty: "p \<in> set (parseDat_with msg content) \<Longrightarrow> name p \<noteq> []"
  by (auto simp: parseDat_with_map name_linePost nanashi_nonempty split: if_splits)

text \<open>
  Claim C7. \<open>parseDatFile\<close> yields one post, in the order of the text, for every line
  that is not empty after trimming and splits on \<open><>\<close> into at least four fields, and
  nothing for any other line. The empty text, the text of white space and line feeds,
  and a text whose lines all have fewer than four fields give no post.
\<close>

theorem parseDatFile_lines:
  "parseDatFile content =
     map (\<lambda>l. linePost (\<lambda>m. m) (split (js ''<>'') l))
         (filter (\<lambda>l. trim l \<noteq> [] \<and> 4 \<le> length (split (js ''<>'') l)) (split [LF] content)) \<and>
   length (parseDatFile content) =
     length (filter (\<lambda>l. trim l \<noteq> [] \<and> 4 \<le> length (split (js ''<>'') l)) (split [LF] content)) \<and>
   parseDatFile [] = [] \<and>
   parseDatFile (js ''   '' @ [LF, LF]) = [] \<and>
   ((\<forall>l \<in> set (split [LF] content). length (split (js ''<>'') l) < 4) \<longrightarrow> parseDatFile content = [])"
proof -
  have a: "parseDatFile content =
     map (\<lambda>l. linePost (\<lambda>m. m) (split (js ''<>'') l))
         (filter (\<lambda>l. trim l \<noteq> [] \<and> 4 \<le> length (split (js ''<>'') l)) (split [LF] content))"
    by (simp add: parseDatFile_def parseDat_with_map)
  have b: "parseDatFile [] = []" by code_simp
  have c: "parseDatFile (js ''   '' @ [LF, LF]) = []" by code_simp
  have d: "(\<forall>l \<in> set (split [LF] content). length (split (js ''<>'') l) < 4) \<longrightarrow> parseDatFile content = []"
    by (auto simp: a filter_empty_conv)
  from a b c d show ?thesis by simp
qed

theorem parseDatFile_lines_witness:
  "map (\<lambda>l. length (split (js ''<>'') l)) (split [LF] (js ''a<>b<>c'' @ [LF] @ js ''x<>y'')) = [3, 2] \<and>
   parseDatFile (js ''a<>b<>c'' @ [LF] @ js ''x<>y'') = []"
proof -
  have m: "map (\<lambda>l. length (split (js ''<>'') l)) (split [LF] (js ''a<>b<>c'' @ [LF] @ js ''x<>y'')) = [3, 2]"
    by code_simp
  have h: "\<forall>l \<in> set (split [LF] (js ''a<>b<>c'' @ [LF] @ js ''x<>y'')). length (split (js ''<>'') l) < 4"
    by code_simp
  with parseDatFile_lines[of "js ''a<>b<>c'' @ [LF] @ js ''x<>y''"] m show ?thesis by blast
qed

text \<open>
  Claim C8. The name of each post is the first field of its line, replaced by the
  placeholder exactly when that field is the empty string; the placeholder is not empty.
  A name field of one blank is kept as it is.
\<close>

theorem parseDatFile_name_placeholder:
  "map name (parseDatFile content) =
     map (\<lambda>l. if split (js ''<>'') l ! 0 = [] then nanashi else split (js ''<>'') l ! 0)
         (filter (\<lambda>l. trim l \<noteq> [] \<and> 4 \<le> length (split (js ''<>'') l)) (split [LF] content)) \<and>
   nanashi \<noteq> [] \<and>
   map name (parseDatFile (js '' <>m<>d<>x'')) = [js '' ''] \<and>
   map name (parseDatFile (js ''<>m<>d<>x'')) = [nanashi]"
proof -
  have a: "map name (parseDatFile content) =
     map (\<lambda>l. if split (js ''<>'') l ! 0 = [] then nanashi else split (js ''<>'') l ! 0)
         (filter (\<lambda>l. trim l \<noteq> [] \<and> 4 \<le> length (split (js ''<>'') l)) (split [LF] content))"
    by (simp add: parseDatFile_def parseDat_with_map name_linePost comp_def)
  have b: "map name (parseDatFile (js '' <>m<>d<>x'')) = [js '' '']" by code_simp
  have c: "map name (parseDatFile (js ''<>m<>d<>x'')) = [nanashi]" by code_simp
  from a b c nanashi_nonempty show ?thesis by simp
qed

theorem parseDatFile_name_placeholder_witness:
  "map name (parseDatFile (js '' <>m<>d<>x'' @ [LF] @ js ''<>m<>d<>x'' @ [LF] @ js ''n<>m<>d<>x'')) =
     [js '' '', nanashi, js ''n'']"
proof -
  have "filter (\<lambda>l. trim l \<noteq> [] \<and> 4 \<le> length (split (js ''<>'') l))
          (split [LF] (js '' <>m<>d<>x'' @ [LF] @ js ''<>m<>d<>x'' @ [LF] @ js ''n<>m<>d<>x'')) =
        [js '' <>m<>d<>x'', js ''<>m<>d<>x'', js ''n<>m<>d<>x'']"
    by code_simp
  moreover have "split (js ''<>'') (js '' <>m<>d<>x'') ! 0 = js '' ''" by code_simp
  moreover have "split (js ''<>'') (js ''<>m<>d<>x'') ! 0 = []" by code_simp
  moreover have "split (js ''<>'') (js ''n<>m<>d<>x'') ! 0 = js ''n''" by code_simp
  moreover have "js '' '' \<noteq> []" "js ''n'' \<noteq> []" by (simp_all add: js_def)
  ultimately show ?thesis
    using parseDatFile_name_placeholder[of "js '' <>m<>d<>x'' @ [LF] @ js ''<>m<>d<>x'' @ [LF] @ js ''n<>m<>d<>x''"]
    by simp
qed

text \<open>
  Claim C10. The post of a line with at least four fields equals the post of the line cut
  to its first four fields; a line made of four fields without \<open><>\<close> and any further
  text gives the post built from those four fields alone; and every post of the parser
  is built from the first four fields of its line.
\<close>

theorem pushLine_ignores_extra_fields:
  "(4 \<le> length (split (js ''<>'') line) \<longrightarrow>
      pushLine msg posts line =
        pushLine msg posts (join (js ''<>'') (take 4 (split (js ''<>'') line)))) \<and>
   (\<not> includes_str (js ''<>'') f0 \<and> \<not> includes_str (js ''<>'') f1 \<and>
    \<not> includes_str (js ''<>'') f2 \<and> \<not> includes_str (js ''<>'') f3 \<longrightarrow>
      pushLine msg posts (f0 @ js ''<>'' @ f1 @ js ''<>'' @ f2 @ js ''<>'' @ f3 @ js ''<>'' @ title) =
        posts @ [linePost msg [f0, f1, f2, f3]]) \<and>
   parseDat_with msg content =
     map (\<lambda>l. linePost msg (take 4 (split (js ''<>'') l)))
         (filter (\<lambda>l. trim l \<noteq> [] \<and> 4 \<le> length (split (js ''<>'') l)) (split [LF] content))"
proof -
  have a: "4 \<le> length (split (js ''<>'') line) \<longrightarrow>
      pushLine msg posts line =
        pushLine msg posts (join (js ''<>'') (take 4 (split (js ''<>'') line)))"
    by (simp add: pushLine_truncate)
  have b: "\<not> includes_str (js ''<>'') f0 \<and> \<not> includes_str (js ''<>'') f1 \<and>
    \<not> includes_str (js ''<>'') f2 \<and> \<not> includes_str (js ''<>'') f3 \<longrightarrow>
      pushLine msg posts (f0 @ js ''<>'' @ f1 @ js ''<>'' @ f2 @ js ''<>'' @ f3 @ js ''<>'' @ title) =
        posts @ [linePost msg [f0, f1, f2, f3]]"
  proof
    assume h: "\<not> includes_str (js ''<>'') f0 \<and> \<not> includes_str (js ''<>'') f1 \<and>
      \<not> includes_str (js ''<>'') f2 \<and> \<not> includes_str (js ''<>'') f3"
    then have sp: "split (js ''<>'') (f0 @ js ''<>'' @ f1 @ js ''<>'' @ f2 @ js ''<>'' @ f3 @ js ''<>'' @ title) =
           f0 # f1 # f2 # f3 # split (js ''<>'') title"
      by (simp add: split_four_fields)
    have "linePost msg (f0 # f1 # f2 # f3 # split (js ''<>'') title) = linePost msg [f0, f1, f2, f3]"
      using linePost_take4[of "f0 # f1 # f2 # f3 # split (js ''<>'') title" msg] by simp
    then show "pushLine msg posts (f0 @ js ''<>'' @ f1 @ js ''<>'' @ f2 @ js ''<>'' @ f3 @ js ''<>'' @ title) =
        posts @ [linePost msg [f0, f1, f2, f3]]"
      by (simp add: pushLine_def Let_def sp)
  qed
  have c: "parseDat_with msg content =
     map (\<lambda>l. linePost msg (take 4 (split (js ''<>'') l)))
         (filter (\<lambda>l. trim l \<noteq> [] \<and> 4 \<le> length (split (js ''<>'') l)) (split [LF] content))"
    by (simp add: parseDat_with_map linePost_take4 cong: map_cong)
  from a b c show ?thesis by blast
qed

theorem pushLine_ignores_extra_fields_witness:
  "4 \<le> length (split (js ''<>'') (js ''a<>b<>c<>d<>title'')) \<and>
   pushLine id [] (js ''a<>b<>c<>d<>title'') = pushLine id [] (js ''a<>b<>c<>d'') \<and>
   \<not> includes_str (js ''<>'') (js ''a'') \<and> \<not> includes_str (js ''<>'') (js ''b'') \<and>
   \<not> includes_str (js ''<>'') (js ''c'') \<and> \<not> includes_str (js ''<>'') (js ''d'') \<and>
   pushLine id [] (js ''a<>b<>c<>d<>title'') = [linePost id [js ''a'', js ''b'', js ''c'', js ''d'']]"
proof -
  have h1: "4 \<le> length (split (js ''<>'') (js ''a<>b<>c<>d<>title''))" by code_simp
  have j: "join (js ''<>'') (take 4 (split (js ''<>'') (js ''a<>b<>c<>d<>title''))) = js ''a<>b<>c<>d''"
    by code_simp
  have h2: "\<not> includes_str (js ''<>'') (js ''a'') \<and> \<not> includes_str (js ''<>'') (js ''b'') \<and>
            \<not> includes_str (js ''<>'') (js ''c'') \<and> \<not> includes_str (js ''<>'') (js ''d'')"
    by code_simp
  have e: "js ''a'' @ js ''<>'' @ js ''b'' @ js ''<>'' @ js ''c'' @ js ''<>'' @ js ''d'' @ js ''<>'' @ js ''title'' =
           js ''a<>b<>c<>d<>title''"
    by (simp add: js_def)
  note t = pushLine_ignores_extra_fields[of "js ''a<>b<>c<>d<>title''" id "[]" "js ''a''" "js ''b''" "js ''c''" "js ''d''"
                  "js ''title''" "[]"]
  from t h1 have a: "pushLine id [] (js ''a<>b<>c<>d<>title'') = pushLine id [] (js ''a<>b<>c<>d'')"
    unfolding j by blast
  from t h2 have b: "pushLine id [] (js ''a<>b<>c<>d<>title'') =
                       [] @ [linePost id [js ''a'', js ''b'', js ''c'', js ''d'']]"
    unfolding e by blast
  from h1 h2 a b show ?thesis by (simp only: append_Nil simp_thms)
qed

section \<open>Properties: names of parsed posts\<close>

lemma bare_post_blocks:
  \<open>htmlBlocks (js ''<div id="1" class="post">'')
     (match_all divPostRegex [] (js ''<div id="1" class="post">'')) = [js ''<div id="1" class="post">'']\<close>
  by code_simp

lemma bare_post_no_username:
  \<open>match username_re (js ''<div id="1" class="post">'') = None\<close>
proof -
  have \<open>case match username_re (js ''<div id="1" class="post">'') of None \<Rightarrow> True | Some r \<Rightarrow> False\<close>
    by code_simp
  then show ?thesis by (simp split: option.splits)
qed

lemma trim_Nil: "trim [] = []"
  by (simp add: trim_def)

lemma bare_post_name:
  assumes "unescapeHtml [] = []"
  shows \<open>map name (parseHtmlPosts unescapeHtml (js ''<div id="1" class="post">'')) = [[]]\<close>
  unfolding parseHtmlPosts_def Let_def bare_post_blocks
  by (simp add: blockPost_def extractNameAndMail_def Let_def bare_post_no_username assms trim_Nil
        split: prod.splits)

text \<open>
  The name of the post of a block is the text of the user name element of the block (the
  text of its anchor where it has one, its content without tags otherwise; the empty text
  where the block has no such element), decoded and trimmed. Nothing takes the place of an
  empty result.
\<close>

lemma blockPost_name:
  "name (blockPost unescapeHtml block) =
     trim (unescapeHtml
       (case match username_re block of None \<Rightarrow> []
        | Some u \<Rightarrow> (case match nameanchor_re (group_of u 1) of
                      Some a \<Rightarrow> group_of a 1
                    | None \<Rightarrow> replace_g tag_re (\<lambda>r. []) (group_of u 1))))"
  by (simp add: blockPost_def extractNameAndMail_def Let_def split: prod.splits option.splits)

lemma parseHtmlPosts_names:
  "map name (parseHtmlPosts unescapeHtml htmlText) =
     map (\<lambda>block. trim (unescapeHtml
            (case match username_re block of None \<Rightarrow> []
             | Some u \<Rightarrow> (case match nameanchor_re (group_of u 1) of
                           Some a \<Rightarrow> group_of a 1
                         | None \<Rightarrow> replace_g tag_re (\<lambda>r. []) (group_of u 1)))))
         (htmlBlocks htmlText (match_all divPostRegex [] htmlText))"
  unfolding parseHtmlPosts_def Let_def map_map comp_def blockPost_name ..

lemma parseHtmlPosts_no_username:
  assumes "unescapeHtml [] = []"
    and "i < length (htmlBlocks htmlText (match_all divPostRegex [] htmlText))"
    and "match username_re (htmlBlocks htmlText (match_all divPostRegex [] htmlText) ! i) = None"
  shows "name (parseHtmlPosts unescapeHtml htmlText ! i) = []"
proof -
  have "name (parseHtmlPosts unescapeHtml htmlText ! i) =
        map name (parseHtmlPosts unescapeHtml htmlText) ! i"
    using assms(2) by (simp add: parseHtmlPosts_def Let_def)
  also have "\<dots> = []"
    unfolding parseHtmlPosts_names using assms by (simp add: trim_def)
  finally show ?thesis .
qed

lemma blank_blocks:
  \<open>htmlBlocks (js ''<div id="1" class="post"><span class="postusername"> </span>'')
     (match_all divPostRegex [] (js ''<div id="1" class="post"><span class="postusername"> </span>''))
   = [js ''<div id="1" class="post"><span class="postusername"> </span>'']\<close>
  by code_simp

lemma blank_username:
  \<open>(case match username_re (js ''<div id="1" class="post"><span class="postusername"> </span>'') of None \<Rightarrow> []
        | Some u \<Rightarrow> (case match nameanchor_re (group_of u 1) of
                      Some a \<Rightarrow> group_of a 1
                    | None \<Rightarrow> replace_g tag_re (\<lambda>r. []) (group_of u 1))) = js '' ''\<close>
  by code_simp

lemma trim_blank: "trim (js '' '') = []"
  by code_simp

lemma blank_post_name:
  assumes "unescapeHtml (js '' '') = js '' ''"
  shows \<open>map name (parseHtmlPosts unescapeHtml
            (js ''<div id="1" class="post"><span class="postusername"> </span>'')) = [[]]\<close>
  unfolding parseHtmlPosts_names blank_blocks
  by (simp only: list.map blank_username assms trim_blank)

lemma two_blocks:
  \<open>htmlBlocks (js ''<div id="1" class="post"><span class="postusername"><b>foo</b></span><div id="2" class="post">'')
     (match_all divPostRegex [] (js ''<div id="1" class="post"><span class="postusername"><b>foo</b></span><div id="2" class="post">''))
   = [js ''<div id="1" class="post"><span class="postusername"><b>foo</b></span>'', js ''<div id="2" class="post">'']\<close>
  by code_simp

lemma second_no_username:
  \<open>match username_re (js ''<div id="2" class="post">'') = None\<close>
proof -
  have \<open>case match username_re (js ''<div id="2" class="post">'') of None \<Rightarrow> True | Some r \<Rightarrow> False\<close>
    by code_simp
  then show ?thesis by (simp split: option.splits)
qed

lemma first_username:
  \<open>trim (id (case match username_re (js ''<div id="1" class="post"><span class="postusername"><b>foo</b></span>'') of None \<Rightarrow> []
        | Some u \<Rightarrow> (case match nameanchor_re (group_of u 1) of
                      Some a \<Rightarrow> group_of a 1
                    | None \<Rightarrow> replace_g tag_re (\<lambda>r. []) (group_of u 1)))) = js ''foo''\<close>
  by code_simp

lemma second_username:
  \<open>trim (id (case match username_re (js ''<div id="2" class="post">'') of None \<Rightarrow> []
        | Some u \<Rightarrow> (case match nameanchor_re (group_of u 1) of
                      Some a \<Rightarrow> group_of a 1
                    | None \<Rightarrow> replace_g tag_re (\<lambda>r. []) (group_of u 1)))) = []\<close>
  by code_simp

text \<open>
  Claim C9, as stated, fails for the HTML parser: a post block without a user name
  element gives a post whose name is the empty string.
\<close>

theorem parseHtmlPosts_empty_name:
  \<open>parseHtmlPosts id (js ''<div id="1" class="post">'') =
     [\<lparr>name = [], mail = [], date = [], id_post = [], message = []\<rparr>]\<close>
  by code_simp

text \<open>
  Claim C9, amended. Every post of the dat parser (of either page) has a non-empty name.
  The HTML parser substitutes nothing: the names of its posts are, block by block, the
  trimmed, decoded user names; with a host decoding that maps the empty text to itself, the
  post of every block without a user name element has the empty name, as has, with a
  decoding that keeps a blank, the post of a block whose user name element is blank; so the
  block of the counterexample gives the empty name.
\<close>

theorem parsed_names:
  \<open>(\<forall>p \<in> set (parseDatFile content). name p \<noteq> []) \<and>
   (\<forall>p \<in> set (parseDatFile_page content). name p \<noteq> []) \<and>
   map name (parseHtmlPosts unescapeHtml htmlText) =
     map (\<lambda>block. trim (unescapeHtml
            (case match username_re block of None \<Rightarrow> []
             | Some u \<Rightarrow> (case match nameanchor_re (group_of u 1) of
                           Some a \<Rightarrow> group_of a 1
                         | None \<Rightarrow> replace_g tag_re (\<lambda>r. []) (group_of u 1)))))
         (htmlBlocks htmlText (match_all divPostRegex [] htmlText)) \<and>
   (unescapeHtml [] = [] \<longrightarrow>
      (\<forall>i < length (htmlBlocks htmlText (match_all divPostRegex [] htmlText)).
         match username_re (htmlBlocks htmlText (match_all divPostRegex [] htmlText) ! i) = None \<longrightarrow>
         name (parseHtmlPosts unescapeHtml htmlText ! i) = [])) \<and>
   (unescapeHtml (js '' '') = js '' '' \<longrightarrow>
      map name (parseHtmlPosts unescapeHtml
        (js ''<div id="1" class="post"><span class="postusername"> </span>'')) = [[]]) \<and>
   (unescapeHtml [] = [] \<longrightarrow>
      map name (parseHtmlPosts unescapeHtml (js ''<div id="1" class="post">'')) = [[]])\<close>
proof -
  have a: "\<forall>p \<in> set (parseDatFile content). name p \<noteq> []"
    by (simp add: parseDatFile_def parseDat_with_name_nonempty)
  have b: "\<forall>p \<in> set (parseDatFile_page content). name p \<noteq> []"
    by (simp add: parseDatFile_page_def parseDat_with_name_nonempty)
  note c = parseHtmlPosts_names[of unescapeHtml htmlText]
  have d: "unescapeHtml [] = [] \<longrightarrow>
      (\<forall>i < length (htmlBlocks htmlText (match_all divPostRegex [] htmlText)).
         match username_re (htmlBlocks htmlText (match_all divPostRegex [] htmlText) ! i) = None \<longrightarrow>
         name (parseHtmlPosts unescapeHtml htmlText ! i) = [])"
    using parseHtmlPosts_no_username[of unescapeHtml _ htmlText] by blast
  have e: \<open>unescapeHtml (js '' '') = js '' '' \<longrightarrow>
      map name (parseHtmlPosts unescapeHtml
        (js ''<div id="1" class="post"><span class="postusername"> </span>'')) = [[]]\<close>
    using blank_post_name[of unescapeHtml] by blast
  have f: \<open>unescapeHtml [] = [] \<longrightarrow>
      map name (parseHtmlPosts unescapeHtml (js ''<div id="1" class="post">'')) = [[]]\<close>
    using bare_post_name[of unescapeHtml] by blast
  from a b c d e f show ?thesis by (intro conjI)
qed

theorem parsed_names_witness:
  \<open>length (parseDatFile (js ''<>m<>d<>x'')) = 1 \<and>
   name (hd (parseDatFile (js ''<>m<>d<>x''))) \<noteq> [] \<and>
   length (parseDatFile_page (js ''<>m<>d<>x'')) = 1 \<and>
   name (hd (parseDatFile_page (js ''<>m<>d<>x''))) \<noteq> [] \<and>
   id ([] :: jsstring) = [] \<and>
   map name (parseHtmlPosts id (js ''<div id="1" class="post">'')) = [[]] \<and>
   id (js '' '') = js '' '' \<and>
   map name (parseHtmlPosts id
     (js ''<div id="1" class="post"><span class="postusername"> </span>'')) = [[]] \<and>
   htmlBlocks (js ''<div id="1" class="post"><span class="postusername"><b>foo</b></span><div id="2" class="post">'')
     (match_all divPostRegex [] (js ''<div id="1" class="post"><span class="postusername"><b>foo</b></span><div id="2" class="post">''))
     = [js ''<div id="1" class="post"><span class="postusername"><b>foo</b></span>'', js ''<div id="2" class="post">''] \<and>
   match username_re (js ''<div id="2" class="post">'') = None \<and>
   name (parseHtmlPosts id (js ''<div id="1" class="post"><span class="postusername"><b>foo</b></span><div id="2" class="post">'') ! 1) = [] \<and>
   map name (parseHtmlPosts id (js ''<div id="1" class="post"><span class="postusername"><b>foo</b></span><div id="2" class="post">''))
     = [js ''foo'', []]\<close>
proof -
  note t = parsed_names[of "js ''<>m<>d<>x''" id
     \<open>js ''<div id="1" class="post"><span class="postusername"><b>foo</b></span><div id="2" class="post">''\<close>]
  have l1: "length (parseDatFile (js ''<>m<>d<>x'')) = 1" by code_simp
  have l2: "length (parseDatFile_page (js ''<>m<>d<>x'')) = 1" by code_simp
  from l1 have m1: "hd (parseDatFile (js ''<>m<>d<>x'')) \<in> set (parseDatFile (js ''<>m<>d<>x''))"
    by (cases "parseDatFile (js ''<>m<>d<>x'')") auto
  from l2 have m2: "hd (parseDatFile_page (js ''<>m<>d<>x'')) \<in> set (parseDatFile_page (js ''<>m<>d<>x''))"
    by (cases "parseDatFile_page (js ''<>m<>d<>x'')") auto
  from t m1 have n1: "name (hd (parseDatFile (js ''<>m<>d<>x''))) \<noteq> []" by blast
  from t m2 have n2: "name (hd (parseDatFile_page (js ''<>m<>d<>x''))) \<noteq> []" by blast
  have i1: "id ([] :: jsstring) = []" and i2: "id (js '' '') = js '' ''" by simp_all
  from t i1 have bare: \<open>map name (parseHtmlPosts id (js ''<div id="1" class="post">'')) = [[]]\<close>
    by blast
  from t i2 have blank: \<open>map name (parseHtmlPosts id
     (js ''<div id="1" class="post"><span class="postusername"> </span>'')) = [[]]\<close>
    by blast
  note blocks = two_blocks
  note nouser = second_no_username
  have len: \<open>1 < length (htmlBlocks (js ''<div id="1" class="post"><span class="postusername"><b>foo</b></span><div id="2" class="post">'')
     (match_all divPostRegex [] (js ''<div id="1" class="post"><span class="postusername"><b>foo</b></span><div id="2" class="post">'')))\<close>
    unfolding blocks by simp
  have nth: \<open>match username_re (htmlBlocks (js ''<div id="1" class="post"><span class="postusername"><b>foo</b></span><div id="2" class="post">'')
     (match_all divPostRegex [] (js ''<div id="1" class="post"><span class="postusername"><b>foo</b></span><div id="2" class="post">'')) ! 1) = None\<close>
    unfolding blocks using nouser by simp
  from t i1 len nth have second: \<open>name (parseHtmlPosts id (js ''<div id="1" class="post"><span class="postusername"><b>foo</b></span><div id="2" class="post">'') ! 1) = []\<close>
    by blast
  from t have \<open>map name (parseHtmlPosts id (js ''<div id="1" class="post"><span class="postusername"><b>foo</b></span><div id="2" class="post">'')) =
     map (\<lambda>block. trim (id
            (case match username_re block of None \<Rightarrow> []
             | Some u \<Rightarrow> (case match nameanchor_re (group_of u 1) of
                           Some a \<Rightarrow> group_of a 1
                         | None \<Rightarrow> replace_g tag_re (\<lambda>r. []) (group_of u 1)))))
         (htmlBlocks (js ''<div id="1" class="post"><span class="postusername"><b>foo</b></span><div id="2" class="post">'')
            (match_all divPostRegex [] (js ''<div id="1" class="post"><span class="postusername"><b>foo</b></span><div id="2" class="post">'')))\<close>
    by blast
  then have names: \<open>map name (parseHtmlPosts id (js ''<div id="1" class="post"><span class="postusername"><b>foo</b></span><div id="2" class="post">''))
     = [js ''foo'', []]\<close>
    unfolding blocks by (simp only: list.map first_username second_username)
  from l1 n1 l2 n2 i1 bare i2 blank blocks nouser second names show ?thesis
    by (intro conjI)
qed

section \<open>Properties: matchers\<close>

lemma startsWith_append_iff: "startsWith p s \<longleftrightarrow> (\<exists>r. s = p @ r)"
  by (induction p s rule: startsWith.induct) auto

lemma lit_eq:
  "lit p (b, s, k) = (if startsWith p s then [(rev p @ b, drop (length p) s, k)] else [])"
proof (induction p arbitrary: b s)
  case Nil
  show ?case by simp
next
  case (Cons a p)
  show ?case by (cases s) (simp_all add: Cons.IH)
qed

lemma lit_append: "lit p (b, p @ r, k) = [(rev p @ b, r, k)]"
  by (simp add: lit_eq startsWith_append_iff)

lemma in_lit:
  "x \<in> set (lit p (b, s, k)) \<longleftrightarrow> (\<exists>r. s = p @ r \<and> x = (rev p @ b, r, k))"
  by (auto simp: lit_eq startsWith_append_iff)

lemma in_star:
  "x \<in> set (star P (b, s, k)) \<longleftrightarrow>
     (\<exists>run r. list_all P run \<and> s = run @ r \<and> x = (rev run @ b, r, k))"
proof (induction s arbitrary: b)
  case Nil
  show ?case by auto
next
  case (Cons c cs)
  show ?case
  proof (cases "P c")
    case True
    have "x \<in> set (star P (b, c # cs, k)) \<longleftrightarrow>
            x \<in> set (star P (c # b, cs, k)) \<or> x = (b, c # cs, k)"
      using True by auto
    also have "\<dots> \<longleftrightarrow> (\<exists>run r. list_all P run \<and> cs = run @ r \<and> x = (rev run @ c # b, r, k)) \<or>
                 x = (b, c # cs, k)"
      by (simp add: Cons.IH)
    also have "\<dots> \<longleftrightarrow> (\<exists>run r. list_all P run \<and> c # cs = run @ r \<and> x = (rev run @ b, r, k))"
    proof
      assume "(\<exists>run r. list_all P run \<and> cs = run @ r \<and> x = (rev run @ c # b, r, k)) \<or>
                 x = (b, c # cs, k)"
      then show "\<exists>run r. list_all P run \<and> c # cs = run @ r \<and> x = (rev run @ b, r, k)"
      proof
        assume "\<exists>run r. list_all P run \<and> cs = run @ r \<and> x = (rev run @ c # b, r, k)"
        then obtain run r where "list_all P run" "cs = run @ r" "x = (rev run @ c # b, r, k)"
          by blast
        with True have "list_all P (c # run) \<and> c # cs = (c # run) @ r \<and> x = (rev (c # run) @ b, r, k)"
          by simp
        then show ?thesis by blast
      next
        assume "x = (b, c # cs, k)"
        then have "list_all P [] \<and> c # cs = [] @ (c # cs) \<and> x = (rev [] @ b, c # cs, k)" by simp
        then show ?thesis by blast
      qed
    next
      assume "\<exists>run r. list_all P run \<and> c # cs = run @ r \<and> x = (rev run @ b, r, k)"
      then obtain run r where h: "list_all P run" "c # cs = run @ r" "x = (rev run @ b, r, k)"
        by blast
      show "(\<exists>run r. list_all P run \<and> cs = run @ r \<and> x = (rev run @ c # b, r, k)) \<or>
                 x = (b, c # cs, k)"
      proof (cases run)
        case Nil
        with h show ?thesis by simp
      next
        case (Cons d ds)
        with h have "list_all P ds \<and> cs = ds @ r \<and> x = (rev ds @ c # b, r, k)" by simp
        then show ?thesis by blast
      qed
    qed
    finally show ?thesis .
  next
    case False
    have "x \<in> set (star P (b, c # cs, k)) \<longleftrightarrow> x = (b, c # cs, k)"
      using False by simp
    also have "\<dots> \<longleftrightarrow> (\<exists>run r. list_all P run \<and> c # cs = run @ r \<and> x = (rev run @ b, r, k))"
    proof
      assume "x = (b, c # cs, k)"
      then have "list_all P [] \<and> c # cs = [] @ (c # cs) \<and> x = (rev [] @ b, c # cs, k)" by simp
      then show "\<exists>run r. list_all P run \<and> c # cs = run @ r \<and> x = (rev run @ b, r, k)" by blast
    next
      assume "\<exists>run r. list_all P run \<and> c # cs = run @ r \<and> x = (rev run @ b, r, k)"
      then obtain run r where h: "list_all P run" "c # cs = run @ r" "x = (rev run @ b, r, k)"
        by blast
      with False show "x = (b, c # cs, k)" by (cases run) auto
    qed
    finally show ?thesis .
  qed
qed

lemma in_plus:
  "x \<in> set (plus_g P (b, s, k)) \<longleftrightarrow>
     (\<exists>run r. run \<noteq> [] \<and> list_all P run \<and> s = run @ r \<and> x = (rev run @ b, r, k))"
proof (cases s)
  case Nil
  then show ?thesis by (auto simp: plus_g_def then_m_def)
next
  case (Cons c cs)
  show ?thesis
  proof (cases "P c")
    case False
    then have "plus_g P (b, s, k) = []" by (simp add: plus_g_def then_m_def Cons)
    moreover have "\<not> (\<exists>run r. run \<noteq> [] \<and> list_all P run \<and> s = run @ r \<and> x = (rev run @ b, r, k))"
    proof
      assume "\<exists>run r. run \<noteq> [] \<and> list_all P run \<and> s = run @ r \<and> x = (rev run @ b, r, k)"
      then obtain run r where "run \<noteq> []" "list_all P run" "s = run @ r" by blast
      with False Cons show False by (cases run) auto
    qed
    ultimately show ?thesis by simp
  next
    case True
    then have "x \<in> set (plus_g P (b, s, k)) \<longleftrightarrow> x \<in> set (star P (c # b, cs, k))"
      by (simp add: plus_g_def then_m_def Cons)
    also have "\<dots> \<longleftrightarrow> (\<exists>run r. list_all P run \<and> cs = run @ r \<and> x = (rev run @ c # b, r, k))"
      by (rule in_star)
    also have "\<dots> \<longleftrightarrow> (\<exists>run r. run \<noteq> [] \<and> list_all P run \<and> s = run @ r \<and> x = (rev run @ b, r, k))"
    proof
      assume "\<exists>run r. list_all P run \<and> cs = run @ r \<and> x = (rev run @ c # b, r, k)"
      then obtain run r where "list_all P run" "cs = run @ r" "x = (rev run @ c # b, r, k)" by blast
      with True Cons have "c # run \<noteq> [] \<and> list_all P (c # run) \<and> s = (c # run) @ r \<and>
                           x = (rev (c # run) @ b, r, k)" by simp
      then show "\<exists>run r. run \<noteq> [] \<and> list_all P run \<and> s = run @ r \<and> x = (rev run @ b, r, k)"
        by blast
    next
      assume "\<exists>run r. run \<noteq> [] \<and> list_all P run \<and> s = run @ r \<and> x = (rev run @ b, r, k)"
      then obtain run r where h: "run \<noteq> []" "list_all P run" "s = run @ r" "x = (rev run @ b, r, k)"
        by blast
      then obtain ds where "run = c # ds" using Cons by (cases run) auto
      with h Cons have "list_all P ds \<and> cs = ds @ r \<and> x = (rev ds @ c # b, r, k)" by simp
      then show "\<exists>run r. list_all P run \<and> cs = run @ r \<and> x = (rev run @ c # b, r, k)" by blast
    qed
    finally show ?thesis .
  qed
qed

lemma in_grp_plus:
  "x \<in> set (grp n (plus_g P) (b, s, k)) \<longleftrightarrow>
     (\<exists>run r. run \<noteq> [] \<and> list_all P run \<and> s = run @ r \<and> x = (rev run @ b, r, k(n \<mapsto> run)))"
proof
  assume "x \<in> set (grp n (plus_g P) (b, s, k))"
  then obtain y where y: "y \<in> set (plus_g P (b, s, k))"
    and x: "x = (case y of (b', r', k') \<Rightarrow> (b', r', k'(n \<mapsto> take (length s - length r') s)))"
    by auto
  from y obtain run r where h: "run \<noteq> []" "list_all P run" "s = run @ r" "y = (rev run @ b, r, k)"
    unfolding in_plus by blast
  with x have "x = (rev run @ b, r, k(n \<mapsto> run))" by simp
  with h show "\<exists>run r. run \<noteq> [] \<and> list_all P run \<and> s = run @ r \<and> x = (rev run @ b, r, k(n \<mapsto> run))"
    by blast
next
  assume "\<exists>run r. run \<noteq> [] \<and> list_all P run \<and> s = run @ r \<and> x = (rev run @ b, r, k(n \<mapsto> run))"
  then obtain run r where h: "run \<noteq> []" "list_all P run" "s = run @ r" "x = (rev run @ b, r, k(n \<mapsto> run))"
    by blast
  then have "(rev run @ b, r, k) \<in> set (plus_g P (b, s, k))"
    unfolding in_plus by blast
  then have "(case (rev run @ b, r, k) of (b', r', k') \<Rightarrow> (b', r', k'(n \<mapsto> take (length s - length r') s)))
               \<in> set (grp n (plus_g P) (b, s, k))"
    by (simp only: grp.simps set_map) (rule imageI)
  with h show "x \<in> set (grp n (plus_g P) (b, s, k))" by simp
qed

lemma in_seqs_Cons:
  "x \<in> set (seqs (m # ms) st) \<longleftrightarrow> (\<exists>y \<in> set (m st). x \<in> set (seqs ms y))"
  by auto

lemma concat_map_concat:
  "concat (map g (concat (map h zs))) = concat (map (\<lambda>z. concat (map g (h z))) zs)"
  by (induction zs) simp_all

lemma seqs_append: "seqs (xs @ ys) st = concat (map (seqs ys) (seqs xs st))"
proof (induction xs arbitrary: st)
  case Nil
  show ?case by simp
next
  case (Cons m xs)
  have "seqs (xs @ ys) = (\<lambda>z. concat (map (seqs ys) (seqs xs z)))"
    by (rule ext) (rule Cons.IH)
  then show ?case by (simp add: concat_map_concat)
qed

lemma star_first:
  "list_all P run \<Longrightarrow> r = [] \<or> \<not> P (hd r) \<Longrightarrow>
   \<exists>tl. star P (b, run @ r, k) = (rev run @ b, r, k) # tl"
proof (induction run arbitrary: b)
  case Nil
  then show ?case by (cases r) auto
next
  case (Cons c cs)
  then obtain tl where "star P (c # b, cs @ r, k) = (rev cs @ c # b, r, k) # tl"
    by fastforce
  with Cons.prems show ?case by simp
qed

lemma plus_first:
  "run \<noteq> [] \<Longrightarrow> list_all P run \<Longrightarrow> r = [] \<or> \<not> P (hd r) \<Longrightarrow>
   \<exists>tl. plus_g P (b, run @ r, k) = (rev run @ b, r, k) # tl"
proof -
  assume a: "run \<noteq> []" "list_all P run" "r = [] \<or> \<not> P (hd r)"
  then obtain c cs where rc: "run = c # cs" by (cases run) auto
  with a have "list_all P cs" "P c" by simp_all
  from star_first[OF this(1) a(3), of "c # b" k]
  obtain tl where "star P (c # b, cs @ r, k) = (rev cs @ c # b, r, k) # tl" by blast
  with \<open>P c\<close> rc show ?thesis by (simp add: plus_g_def then_m_def)
qed

lemma in_seqs_Nil: "x \<in> set (seqs [] st) \<longleftrightarrow> x = st"
  by auto

lemma in_seqs_lit:
  "x \<in> set (seqs (lit p # ms) (b, s, k)) \<longleftrightarrow>
     (\<exists>r. s = p @ r \<and> x \<in> set (seqs ms (rev p @ b, r, k)))"
  unfolding in_seqs_Cons by (auto simp: in_lit simp del: seqs.simps)

lemma in_seqs_opt_lit:
  "x \<in> set (seqs (opt (lit p) # ms) (b, s, k)) \<longleftrightarrow>
     (\<exists>r. s = p @ r \<and> x \<in> set (seqs ms (rev p @ b, r, k))) \<or> x \<in> set (seqs ms (b, s, k))"
  unfolding in_seqs_Cons by (auto simp: in_lit opt_def simp del: seqs.simps)

lemma in_seqs_grp_plus:
  "x \<in> set (seqs (grp n (plus_g P) # ms) (b, s, k)) \<longleftrightarrow>
     (\<exists>run r. run \<noteq> [] \<and> list_all P run \<and> s = run @ r \<and>
              x \<in> set (seqs ms (rev run @ b, r, k(n \<mapsto> run))))"
  by (simp only: in_seqs_Cons Bex_def in_grp_plus) blast

lemma in_seqs_plus:
  "x \<in> set (seqs (plus_g P # ms) (b, s, k)) \<longleftrightarrow>
     (\<exists>run r. run \<noteq> [] \<and> list_all P run \<and> s = run @ r \<and>
              x \<in> set (seqs ms (rev run @ b, r, k)))"
  by (simp only: in_seqs_Cons Bex_def in_plus) blast


lemma url_tail_sound:
  assumes "x \<in> set (seqs [grp 1 (plus_g notSlash), lit (js ''.''), grp 2 (plus_g notSlash),
                           lit (js ''/test/read.cgi/''), grp 3 (plus_g notSlash), lit (js ''/'')]
                     (b, t, k))"
  shows "\<exists>g1 g2 g3 r b'.
           g1 \<noteq> [] \<and> list_all notSlash g1 \<and> g2 \<noteq> [] \<and> list_all notSlash g2 \<and>
           g3 \<noteq> [] \<and> list_all notSlash g3 \<and>
           t = g1 @ js ''.'' @ g2 @ js ''/test/read.cgi/'' @ g3 @ js ''/'' @ r \<and>
           x = (b', r, k(1 \<mapsto> g1, 2 \<mapsto> g2, 3 \<mapsto> g3))"
proof -
  from assms obtain g1 r1 where g1: "g1 \<noteq> []" "list_all notSlash g1" "t = g1 @ r1"
    and m1: "x \<in> set (seqs [lit (js ''.''), grp 2 (plus_g notSlash),
                           lit (js ''/test/read.cgi/''), grp 3 (plus_g notSlash), lit (js ''/'')]
                     (rev g1 @ b, r1, k(1 \<mapsto> g1)))"
    unfolding in_seqs_grp_plus by blast
  from m1 obtain r2 where r2: "r1 = js ''.'' @ r2"
    and m2: "x \<in> set (seqs [grp 2 (plus_g notSlash),
                           lit (js ''/test/read.cgi/''), grp 3 (plus_g notSlash), lit (js ''/'')]
                     (rev (js ''.'') @ rev g1 @ b, r2, k(1 \<mapsto> g1)))"
    unfolding in_seqs_lit by blast
  from m2 obtain g2 r3 where g2: "g2 \<noteq> []" "list_all notSlash g2" "r2 = g2 @ r3"
    and m3: "x \<in> set (seqs [lit (js ''/test/read.cgi/''), grp 3 (plus_g notSlash), lit (js ''/'')]
                     (rev g2 @ rev (js ''.'') @ rev g1 @ b, r3, k(1 \<mapsto> g1, 2 \<mapsto> g2)))"
    unfolding in_seqs_grp_plus by blast
  from m3 obtain r4 where r4: "r3 = js ''/test/read.cgi/'' @ r4"
    and m4: "x \<in> set (seqs [grp 3 (plus_g notSlash), lit (js ''/'')]
                     (rev (js ''/test/read.cgi/'') @ rev g2 @ rev (js ''.'') @ rev g1 @ b, r4,
                      k(1 \<mapsto> g1, 2 \<mapsto> g2)))"
    unfolding in_seqs_lit by blast
  from m4 obtain g3 r5 where g3: "g3 \<noteq> []" "list_all notSlash g3" "r4 = g3 @ r5"
    and m5: "x \<in> set (seqs [lit (js ''/'')]
                     (rev g3 @ rev (js ''/test/read.cgi/'') @ rev g2 @ rev (js ''.'') @ rev g1 @ b, r5,
                      k(1 \<mapsto> g1, 2 \<mapsto> g2, 3 \<mapsto> g3)))"
    unfolding in_seqs_grp_plus by blast
  from m5 obtain r where r: "r5 = js ''/'' @ r"
    and x: "x = (rev (js ''/'') @ rev g3 @ rev (js ''/test/read.cgi/'') @ rev g2 @ rev (js ''.'') @
                 rev g1 @ b, r, k(1 \<mapsto> g1, 2 \<mapsto> g2, 3 \<mapsto> g3))"
    unfolding in_seqs_lit in_seqs_Nil by blast
  have "t = g1 @ js ''.'' @ g2 @ js ''/test/read.cgi/'' @ g3 @ js ''/'' @ r"
    by (simp only: g1(3) r2 g2(3) r4 g3(3) r)
  with g1(1,2) g2(1,2) g3(1,2) x show ?thesis by blast
qed

lemma url_tail_complete:
  assumes "g1 \<noteq> []" "list_all notSlash g1" "g2 \<noteq> []" "list_all notSlash g2"
          "g3 \<noteq> []" "list_all notSlash g3"
  shows "\<exists>b'. (b', r, k(1 \<mapsto> g1, 2 \<mapsto> g2, 3 \<mapsto> g3)) \<in>
           set (seqs [grp 1 (plus_g notSlash), lit (js ''.''), grp 2 (plus_g notSlash),
                      lit (js ''/test/read.cgi/''), grp 3 (plus_g notSlash), lit (js ''/'')]
                 (b, g1 @ js ''.'' @ g2 @ js ''/test/read.cgi/'' @ g3 @ js ''/'' @ r, k))"
proof -
  have m5: "(rev (js ''/'') @ rev g3 @ rev (js ''/test/read.cgi/'') @ rev g2 @ rev (js ''.'') @ rev g1 @ b,
             r, k(1 \<mapsto> g1, 2 \<mapsto> g2, 3 \<mapsto> g3)) \<in>
            set (seqs [lit (js ''/'')]
                     (rev g3 @ rev (js ''/test/read.cgi/'') @ rev g2 @ rev (js ''.'') @ rev g1 @ b,
                      js ''/'' @ r, k(1 \<mapsto> g1, 2 \<mapsto> g2, 3 \<mapsto> g3)))"
    unfolding in_seqs_lit in_seqs_Nil by blast
  have m4: "(rev (js ''/'') @ rev g3 @ rev (js ''/test/read.cgi/'') @ rev g2 @ rev (js ''.'') @ rev g1 @ b,
             r, k(1 \<mapsto> g1, 2 \<mapsto> g2, 3 \<mapsto> g3)) \<in>
            set (seqs [grp 3 (plus_g notSlash), lit (js ''/'')]
                     (rev (js ''/test/read.cgi/'') @ rev g2 @ rev (js ''.'') @ rev g1 @ b,
                      g3 @ js ''/'' @ r, k(1 \<mapsto> g1, 2 \<mapsto> g2)))"
    unfolding in_seqs_grp_plus using m5 assms(5,6) by blast
  have m3: "(rev (js ''/'') @ rev g3 @ rev (js ''/test/read.cgi/'') @ rev g2 @ rev (js ''.'') @ rev g1 @ b,
             r, k(1 \<mapsto> g1, 2 \<mapsto> g2, 3 \<mapsto> g3)) \<in>
            set (seqs [lit (js ''/test/read.cgi/''), grp 3 (plus_g notSlash), lit (js ''/'')]
                     (rev g2 @ rev (js ''.'') @ rev g1 @ b,
                      js ''/test/read.cgi/'' @ g3 @ js ''/'' @ r, k(1 \<mapsto> g1, 2 \<mapsto> g2)))"
    unfolding in_seqs_lit[of _ "js ''/test/read.cgi/''"] using m4 by blast
  have m2: "(rev (js ''/'') @ rev g3 @ rev (js ''/test/read.cgi/'') @ rev g2 @ rev (js ''.'') @ rev g1 @ b,
             r, k(1 \<mapsto> g1, 2 \<mapsto> g2, 3 \<mapsto> g3)) \<in>
            set (seqs [grp 2 (plus_g notSlash), lit (js ''/test/read.cgi/''), grp 3 (plus_g notSlash),
                       lit (js ''/'')]
                     (rev (js ''.'') @ rev g1 @ b,
                      g2 @ js ''/test/read.cgi/'' @ g3 @ js ''/'' @ r, k(1 \<mapsto> g1)))"
    unfolding in_seqs_grp_plus using m3 assms(3,4) by blast
  have m1: "(rev (js ''/'') @ rev g3 @ rev (js ''/test/read.cgi/'') @ rev g2 @ rev (js ''.'') @ rev g1 @ b,
             r, k(1 \<mapsto> g1, 2 \<mapsto> g2, 3 \<mapsto> g3)) \<in>
            set (seqs [lit (js ''.''), grp 2 (plus_g notSlash), lit (js ''/test/read.cgi/''),
                       grp 3 (plus_g notSlash), lit (js ''/'')]
                     (rev g1 @ b,
                      js ''.'' @ g2 @ js ''/test/read.cgi/'' @ g3 @ js ''/'' @ r, k(1 \<mapsto> g1)))"
    unfolding in_seqs_lit[of _ "js ''.''"] using m2 by blast
  have "(rev (js ''/'') @ rev g3 @ rev (js ''/test/read.cgi/'') @ rev g2 @ rev (js ''.'') @ rev g1 @ b,
             r, k(1 \<mapsto> g1, 2 \<mapsto> g2, 3 \<mapsto> g3)) \<in>
            set (seqs [grp 1 (plus_g notSlash), lit (js ''.''), grp 2 (plus_g notSlash),
                       lit (js ''/test/read.cgi/''), grp 3 (plus_g notSlash), lit (js ''/'')]
                     (b, g1 @ js ''.'' @ g2 @ js ''/test/read.cgi/'' @ g3 @ js ''/'' @ r, k))"
    unfolding in_seqs_grp_plus using m1 assms(1,2) by blast
  then show ?thesis by blast
qed


lemma url_pre_sound:
  assumes "x \<in> set (seqs [lit (js ''http''), opt (lit (js ''s'')), lit (js ''://''),
                           grp 1 (plus_g notSlash), lit (js ''.''), grp 2 (plus_g notSlash),
                           lit (js ''/test/read.cgi/''), grp 3 (plus_g notSlash), lit (js ''/'')]
                     (b, s, k))"
  shows "\<exists>sch g1 g2 g3 r b'.
           (sch = js ''http'' \<or> sch = js ''https'') \<and>
           g1 \<noteq> [] \<and> list_all notSlash g1 \<and> g2 \<noteq> [] \<and> list_all notSlash g2 \<and>
           g3 \<noteq> [] \<and> list_all notSlash g3 \<and>
           s = sch @ js ''://'' @ g1 @ js ''.'' @ g2 @ js ''/test/read.cgi/'' @ g3 @ js ''/'' @ r \<and>
           x = (b', r, k(1 \<mapsto> g1, 2 \<mapsto> g2, 3 \<mapsto> g3))"
proof -
  from assms obtain r0 where r0: "s = js ''http'' @ r0"
    and a: "x \<in> set (seqs [opt (lit (js ''s'')), lit (js ''://''),
                           grp 1 (plus_g notSlash), lit (js ''.''), grp 2 (plus_g notSlash),
                           lit (js ''/test/read.cgi/''), grp 3 (plus_g notSlash), lit (js ''/'')]
                     (rev (js ''http'') @ b, r0, k))"
    unfolding in_seqs_lit by blast
  from a have "(\<exists>r. r0 = js ''s'' @ r \<and>
                 x \<in> set (seqs [lit (js ''://''),
                           grp 1 (plus_g notSlash), lit (js ''.''), grp 2 (plus_g notSlash),
                           lit (js ''/test/read.cgi/''), grp 3 (plus_g notSlash), lit (js ''/'')]
                     (rev (js ''s'') @ rev (js ''http'') @ b, r, k))) \<or>
               x \<in> set (seqs [lit (js ''://''),
                           grp 1 (plus_g notSlash), lit (js ''.''), grp 2 (plus_g notSlash),
                           lit (js ''/test/read.cgi/''), grp 3 (plus_g notSlash), lit (js ''/'')]
                     (rev (js ''http'') @ b, r0, k))"
    unfolding in_seqs_opt_lit .
  then obtain sch b1 r1 where sch: "sch = js ''http'' \<or> sch = js ''https''" and s1: "s = sch @ r1"
    and a1: "x \<in> set (seqs [lit (js ''://''),
                           grp 1 (plus_g notSlash), lit (js ''.''), grp 2 (plus_g notSlash),
                           lit (js ''/test/read.cgi/''), grp 3 (plus_g notSlash), lit (js ''/'')]
                     (b1, r1, k))"
  proof (elim disjE exE conjE)
    fix r
    assume r: "r0 = js ''s'' @ r"
      and m: "x \<in> set (seqs [lit (js ''://''),
                           grp 1 (plus_g notSlash), lit (js ''.''), grp 2 (plus_g notSlash),
                           lit (js ''/test/read.cgi/''), grp 3 (plus_g notSlash), lit (js ''/'')]
                     (rev (js ''s'') @ rev (js ''http'') @ b, r, k))"
    have "js ''http'' @ js ''s'' = js ''https''" by (simp add: js_def)
    then have "s = js ''https'' @ r" using r0 r by simp
    with m that show ?thesis by blast
  next
    assume m: "x \<in> set (seqs [lit (js ''://''),
                           grp 1 (plus_g notSlash), lit (js ''.''), grp 2 (plus_g notSlash),
                           lit (js ''/test/read.cgi/''), grp 3 (plus_g notSlash), lit (js ''/'')]
                     (rev (js ''http'') @ b, r0, k))"
    with r0 that show ?thesis by blast
  qed
  from a1 obtain r2 where r2: "r1 = js ''://'' @ r2"
    and a2: "x \<in> set (seqs [grp 1 (plus_g notSlash), lit (js ''.''), grp 2 (plus_g notSlash),
                           lit (js ''/test/read.cgi/''), grp 3 (plus_g notSlash), lit (js ''/'')]
                     (rev (js ''://'') @ b1, r2, k))"
    unfolding in_seqs_lit by blast
  from url_tail_sound[OF a2] obtain g1 g2 g3 r b' where
    h: "g1 \<noteq> []" "list_all notSlash g1" "g2 \<noteq> []" "list_all notSlash g2"
       "g3 \<noteq> []" "list_all notSlash g3"
       "r2 = g1 @ js ''.'' @ g2 @ js ''/test/read.cgi/'' @ g3 @ js ''/'' @ r"
       "x = (b', r, k(1 \<mapsto> g1, 2 \<mapsto> g2, 3 \<mapsto> g3))"
    by blast
  have "s = sch @ js ''://'' @ g1 @ js ''.'' @ g2 @ js ''/test/read.cgi/'' @ g3 @ js ''/'' @ r"
    by (simp only: s1 r2 h(7))
  with sch h(1-6,8) show ?thesis by blast
qed

lemma url_pre_complete:
  assumes "sch = js ''http'' \<or> sch = js ''https''"
          "g1 \<noteq> []" "list_all notSlash g1" "g2 \<noteq> []" "list_all notSlash g2"
          "g3 \<noteq> []" "list_all notSlash g3"
  shows "\<exists>b'. (b', r, k(1 \<mapsto> g1, 2 \<mapsto> g2, 3 \<mapsto> g3)) \<in>
           set (seqs [lit (js ''http''), opt (lit (js ''s'')), lit (js ''://''),
                      grp 1 (plus_g notSlash), lit (js ''.''), grp 2 (plus_g notSlash),
                      lit (js ''/test/read.cgi/''), grp 3 (plus_g notSlash), lit (js ''/'')]
                 (b, sch @ js ''://'' @ g1 @ js ''.'' @ g2 @ js ''/test/read.cgi/'' @ g3 @ js ''/'' @ r, k))"
proof -
  have t: "\<exists>b'. (b', r, k(1 \<mapsto> g1, 2 \<mapsto> g2, 3 \<mapsto> g3)) \<in>
           set (seqs [lit (js ''://''),
                      grp 1 (plus_g notSlash), lit (js ''.''), grp 2 (plus_g notSlash),
                      lit (js ''/test/read.cgi/''), grp 3 (plus_g notSlash), lit (js ''/'')]
                 (b1, js ''://'' @ g1 @ js ''.'' @ g2 @ js ''/test/read.cgi/'' @ g3 @ js ''/'' @ r, k))"
    for b1
    unfolding in_seqs_lit[of _ "js ''://''"]
    using url_tail_complete[OF assms(2-7), of r k "rev (js ''://'') @ b1"] by blast
  from assms(1) show ?thesis
  proof
    assume sch: "sch = js ''http''"
    from t[of "rev (js ''http'') @ b"] show ?thesis
      unfolding sch in_seqs_lit[of _ "js ''http''"] in_seqs_opt_lit by blast
  next
    assume sch: "sch = js ''https''"
    have e: "js ''https'' = js ''http'' @ js ''s''" by (simp add: js_def)
    from t[of "rev (js ''s'') @ rev (js ''http'') @ b"] show ?thesis
      unfolding sch e append_assoc in_seqs_lit[of _ "js ''http''"] in_seqs_opt_lit by blast
  qed
qed

section \<open>Properties: the URL pattern\<close>

lemma notSlash_set: "list_all notSlash xs \<Longrightarrow> 0x2F \<notin> set xs"
  by (induction xs) (auto simp: notSlash_def)

lemma split_at_unique:
  "c \<notin> set xs \<Longrightarrow> c \<notin> set ys \<Longrightarrow> xs @ c # u = ys @ c # v \<Longrightarrow> xs = ys \<and> u = v"
proof (induction xs arbitrary: ys)
  case Nil
  then show ?case by (cases ys) auto
next
  case (Cons x xs)
  then show ?case by (cases ys) auto
qed

lemma js_dot: "js ''.'' = [0x2E]"
  by (simp add: js_def)

lemma js_slash: "js ''/'' = [0x2F]"
  by (simp add: js_def)

lemma js_path: "js ''/test/read.cgi/'' = 0x2F # js ''test/read.cgi/''"
  by (simp add: js_def)

lemma scheme_unique:
  assumes "sch = js ''http'' \<or> sch = js ''https''" "sch' = js ''http'' \<or> sch' = js ''https''"
          "sch @ js ''://'' @ t = sch' @ js ''://'' @ t'"
  shows "sch = sch' \<and> t = t'"
  using assms by (auto simp: js_def)

text \<open>Where the URL has the shape of the pattern, every way to match the part before the
  thread id splits the host at one of its dots and takes the whole board.\<close>

lemma url_pre_unique:
  assumes sh: "sch = js ''http'' \<or> sch = js ''https''"
    "list_all notSlash server" "list_all notSlash domain" "list_all notSlash board"
    and x: "x \<in> set (seqs [lit (js ''http''), opt (lit (js ''s'')), lit (js ''://''),
                           grp 1 (plus_g notSlash), lit (js ''.''), grp 2 (plus_g notSlash),
                           lit (js ''/test/read.cgi/''), grp 3 (plus_g notSlash), lit (js ''/'')]
                     (b, sch @ js ''://'' @ server @ js ''.'' @ domain @ js ''/test/read.cgi/'' @
                         board @ js ''/'' @ t, k))"
  shows "\<exists>g1 g2 b'. g1 @ js ''.'' @ g2 = server @ js ''.'' @ domain \<and>
                    x = (b', t, k(1 \<mapsto> g1, 2 \<mapsto> g2, 3 \<mapsto> board))"
proof -
  from url_pre_sound[OF x] obtain sch' g1 g2 g3 r b' where
    h: "sch' = js ''http'' \<or> sch' = js ''https''"
       "list_all notSlash g1" "list_all notSlash g2" "list_all notSlash g3"
       "sch @ js ''://'' @ server @ js ''.'' @ domain @ js ''/test/read.cgi/'' @ board @ js ''/'' @ t =
        sch' @ js ''://'' @ g1 @ js ''.'' @ g2 @ js ''/test/read.cgi/'' @ g3 @ js ''/'' @ r"
       "x = (b', r, k(1 \<mapsto> g1, 2 \<mapsto> g2, 3 \<mapsto> g3))"
    by blast
  from scheme_unique[OF sh(1) h(1) h(5)]
  have e1: "server @ js ''.'' @ domain @ js ''/test/read.cgi/'' @ board @ js ''/'' @ t =
            g1 @ js ''.'' @ g2 @ js ''/test/read.cgi/'' @ g3 @ js ''/'' @ r" by simp
  have n1: "0x2F \<notin> set (server @ js ''.'' @ domain)"
    using notSlash_set[OF sh(2)] notSlash_set[OF sh(3)] by (simp add: js_dot)
  have n2: "0x2F \<notin> set (g1 @ js ''.'' @ g2)"
    using notSlash_set[OF h(2)] notSlash_set[OF h(3)] by (simp add: js_dot)
  from e1 have "(server @ js ''.'' @ domain) @ 0x2F # (js ''test/read.cgi/'' @ board @ js ''/'' @ t) =
                (g1 @ js ''.'' @ g2) @ 0x2F # (js ''test/read.cgi/'' @ g3 @ js ''/'' @ r)"
    by (simp add: js_path)
  from split_at_unique[OF n1 n2 this]
  have e2: "server @ js ''.'' @ domain = g1 @ js ''.'' @ g2"
    and e3: "js ''test/read.cgi/'' @ board @ js ''/'' @ t = js ''test/read.cgi/'' @ g3 @ js ''/'' @ r"
    by blast+
  from e3 have "board @ 0x2F # t = g3 @ 0x2F # r" by (simp add: js_slash)
  from split_at_unique[OF notSlash_set[OF sh(4)] notSlash_set[OF h(4)] this]
  have "board = g3" "t = r"
    by blast+
  with e2 h(6) show ?thesis by auto
qed

lemma hd_concat_map:
  "xs = y # ys \<Longrightarrow> f y = z # zs \<Longrightarrow> \<exists>tl. concat (map f xs) = z # tl"
  by simp

lemma url_re_split:
  "url_re = seqs ([lit (js ''http''), opt (lit (js ''s'')), lit (js ''://''),
                   grp 1 (plus_g notSlash), lit (js ''.''), grp 2 (plus_g notSlash),
                   lit (js ''/test/read.cgi/''), grp 3 (plus_g notSlash), lit (js ''/'')] @
                  [grp 4 (plus_g isDigit)])"
  by (simp add: url_re_def)

lemma seqs_single: "seqs [m] st = m st"
proof -
  have "seqs [] = (\<lambda>st. [st])" by (rule ext) simp
  then show ?thesis by simp
qed

text \<open>The first match of the URL pattern at the start of a URL of the pattern's shape.\<close>

lemma url_re_first:
  assumes sh: "sch = js ''http'' \<or> sch = js ''https''"
    "server \<noteq> []" "list_all notSlash server" "domain \<noteq> []" "list_all notSlash domain"
    "board \<noteq> []" "list_all notSlash board"
    "threadId \<noteq> []" "list_all isDigit threadId" "rest = [] \<or> \<not> isDigit (hd rest)"
  shows "\<exists>b' k' tl g1 g2.
           url_re (b, sch @ js ''://'' @ server @ js ''.'' @ domain @ js ''/test/read.cgi/'' @
                      board @ js ''/'' @ threadId @ rest, k) = (b', rest, k') # tl \<and>
           k' 1 = Some g1 \<and> k' 2 = Some g2 \<and> g1 @ js ''.'' @ g2 = server @ js ''.'' @ domain \<and>
           k' 3 = Some board \<and> k' 4 = Some threadId"
proof -
  let ?pre = "[lit (js ''http''), opt (lit (js ''s'')), lit (js ''://''),
               grp 1 (plus_g notSlash), lit (js ''.''), grp 2 (plus_g notSlash),
               lit (js ''/test/read.cgi/''), grp 3 (plus_g notSlash), lit (js ''/'')]"
  let ?s = "sch @ js ''://'' @ server @ js ''.'' @ domain @ js ''/test/read.cgi/'' @
              board @ js ''/'' @ (threadId @ rest)"
  from url_pre_complete[OF sh(1-7), of "threadId @ rest" k b]
  have "seqs ?pre (b, ?s, k) \<noteq> []" by (auto simp del: seqs.simps)
  then obtain y ys where yys: "seqs ?pre (b, ?s, k) = y # ys"
    by (cases "seqs ?pre (b, ?s, k)") auto
  then have "y \<in> set (seqs ?pre (b, ?s, k))" by simp
  from url_pre_unique[OF sh(1,3,5,7) this] obtain g1 g2 b1 where
    g: "g1 @ js ''.'' @ g2 = server @ js ''.'' @ domain"
    and y: "y = (b1, threadId @ rest, k(1 \<mapsto> g1, 2 \<mapsto> g2, 3 \<mapsto> board))"
    by blast
  from plus_first[OF sh(8,9,10), of b1 "k(1 \<mapsto> g1, 2 \<mapsto> g2, 3 \<mapsto> board)"]
  obtain tl where "plus_g isDigit (b1, threadId @ rest, k(1 \<mapsto> g1, 2 \<mapsto> g2, 3 \<mapsto> board)) =
                     (rev threadId @ b1, rest, k(1 \<mapsto> g1, 2 \<mapsto> g2, 3 \<mapsto> board)) # tl"
    by blast
  then have l: "seqs [grp 4 (plus_g isDigit)] y =
                  (rev threadId @ b1, rest, k(1 \<mapsto> g1, 2 \<mapsto> g2, 3 \<mapsto> board, 4 \<mapsto> threadId)) #
                  map (\<lambda>(b', r', k'). (b', r', k'(4 \<mapsto> take (length (threadId @ rest) - length r') (threadId @ rest)))) tl"
    unfolding seqs_single y by simp
  have "url_re (b, ?s, k) = concat (map (seqs [grp 4 (plus_g isDigit)]) (seqs ?pre (b, ?s, k)))"
    unfolding url_re_split by (rule seqs_append)
  with yys l obtain tl' where
    "url_re (b, ?s, k) =
       (rev threadId @ b1, rest, k(1 \<mapsto> g1, 2 \<mapsto> g2, 3 \<mapsto> board, 4 \<mapsto> threadId)) # tl'"
    by auto
  with g show ?thesis by auto
qed

lemma url_match:
  assumes sh: "sch = js ''http'' \<or> sch = js ''https''"
    "server \<noteq> []" "list_all notSlash server" "domain \<noteq> []" "list_all notSlash domain"
    "board \<noteq> []" "list_all notSlash board"
    "threadId \<noteq> []" "list_all isDigit threadId" "rest = [] \<or> \<not> isDigit (hd rest)"
  shows "\<exists>m. match url_re (sch @ js ''://'' @ server @ js ''.'' @ domain @ js ''/test/read.cgi/'' @
                      board @ js ''/'' @ threadId @ rest) = Some m \<and>
             group_of m 1 @ js ''.'' @ group_of m 2 = server @ js ''.'' @ domain \<and>
             group_of m 3 = board \<and> group_of m 4 = threadId"
proof -
  let ?s = "sch @ js ''://'' @ server @ js ''.'' @ domain @ js ''/test/read.cgi/'' @
              board @ js ''/'' @ threadId @ rest"
  from url_re_first[OF sh, of "[]" Map.empty] obtain b' k' tl g1 g2 where
    u: "url_re ([], ?s, Map.empty) = (b', rest, k') # tl"
    and k: "k' 1 = Some g1" "k' 2 = Some g2" "g1 @ js ''.'' @ g2 = server @ js ''.'' @ domain"
           "k' 3 = Some board" "k' 4 = Some threadId"
    by blast
  from sh(1) obtain c cs where cs: "?s = c # cs" by (auto simp: js_def)
  have "match url_re ?s = Some \<lparr>index = 0, whole = take (Suc (length cs) - length rest) (c # cs),
                                groups = k', after = rest\<rparr>"
    using u unfolding match_def cs by simp
  with k show ?thesis by (simp add: group_of_def)
qed

lemma search_SomeD:
  "search m b s = Some r \<Longrightarrow>
   \<exists>pre t b' r' k' tl. s = pre @ t \<and> m (rev pre @ b, t, Map.empty) = (b', r', k') # tl \<and>
                       groups r = k' \<and> after r = r' \<and> index r = length b + length pre"
proof (induction s arbitrary: b)
  case Nil
  note prems = Nil
  show ?case
  proof (cases "m (b, [], Map.empty)")
    case Nil
    with prems have False by simp
    then show ?thesis ..
  next
    case (Cons x xs)
    obtain b' r' k' where x: "x = (b', r', k')" by (cases x) auto
    from prems have "r = \<lparr>index = length b, whole = [], groups = k', after = r'\<rparr>"
      by (simp add: Cons x)
    then have "groups r = k'" "after r = r'" "index r = length b" by simp_all
    with Cons x have "[] = [] @ [] \<and> m (rev [] @ b, [], Map.empty) = (b', r', k') # xs \<and>
             groups r = k' \<and> after r = r' \<and> index r = length b + length ([] :: jsstring)" by simp
    then show ?thesis
      by (intro exI[of _ "[]"] exI[of _ b'] exI[of _ r'] exI[of _ k'] exI[of _ xs])
  qed
next
  case (Cons c cs)
  note prems = Cons.prems and IH = Cons.IH
  show ?case
  proof (cases "m (b, c # cs, Map.empty)")
    case Nil
    with prems have "search m (c # b) cs = Some r" by simp
    from IH[OF this] obtain pre t b' r' k' tl where
      h: "cs = pre @ t" "m (rev pre @ c # b, t, Map.empty) = (b', r', k') # tl"
         "groups r = k'" "after r = r'" "index r = length (c # b) + length pre"
      by (elim exE conjE)
    then have "c # cs = (c # pre) @ t \<and> m (rev (c # pre) @ b, t, Map.empty) = (b', r', k') # tl \<and>
               groups r = k' \<and> after r = r' \<and> index r = length b + length (c # pre)"
      by simp
    then show ?thesis
      by (intro exI[of _ "c # pre"] exI[of _ t] exI[of _ b'] exI[of _ r'] exI[of _ k'] exI[of _ tl])
  next
    case (Cons x xs)
    note mx = Cons
    obtain b' r' k' where x: "x = (b', r', k')" by (cases x) auto
    from prems have "r = \<lparr>index = length b, whole = take (Suc (length cs) - length r') (c # cs),
                           groups = k', after = r'\<rparr>"
      by (simp add: mx x)
    then have "groups r = k'" "after r = r'" "index r = length b" by simp_all
    with mx x have "c # cs = [] @ (c # cs) \<and> m (rev [] @ b, c # cs, Map.empty) = (b', r', k') # xs \<and>
               groups r = k' \<and> after r = r' \<and> index r = length b + length ([] :: jsstring)"
      by simp
    then show ?thesis
      by (intro exI[of _ "[]"] exI[of _ "c # cs"] exI[of _ b'] exI[of _ r'] exI[of _ k'] exI[of _ xs])
  qed
qed

lemma url_re_sound:
  assumes "x \<in> set (url_re (b, s, k))"
  shows "\<exists>sch g1 g2 g3 g4 r b'.
           (sch = js ''http'' \<or> sch = js ''https'') \<and>
           g1 \<noteq> [] \<and> list_all notSlash g1 \<and> g2 \<noteq> [] \<and> list_all notSlash g2 \<and>
           g3 \<noteq> [] \<and> list_all notSlash g3 \<and> g4 \<noteq> [] \<and> list_all isDigit g4 \<and>
           s = sch @ js ''://'' @ g1 @ js ''.'' @ g2 @ js ''/test/read.cgi/'' @ g3 @ js ''/'' @ g4 @ r \<and>
           x = (b', r, k(1 \<mapsto> g1, 2 \<mapsto> g2, 3 \<mapsto> g3, 4 \<mapsto> g4))"
proof -
  let ?pre = "[lit (js ''http''), opt (lit (js ''s'')), lit (js ''://''),
               grp 1 (plus_g notSlash), lit (js ''.''), grp 2 (plus_g notSlash),
               lit (js ''/test/read.cgi/''), grp 3 (plus_g notSlash), lit (js ''/'')]"
  from assms have "x \<in> set (concat (map (seqs [grp 4 (plus_g isDigit)]) (seqs ?pre (b, s, k))))"
    unfolding url_re_split seqs_append .
  then obtain y where y: "y \<in> set (seqs ?pre (b, s, k))" and xy: "x \<in> set (seqs [grp 4 (plus_g isDigit)] y)"
    by (auto simp del: seqs.simps)
  from url_pre_sound[OF y] obtain sch g1 g2 g3 r1 b1 where
    h: "sch = js ''http'' \<or> sch = js ''https''"
       "g1 \<noteq> []" "list_all notSlash g1" "g2 \<noteq> []" "list_all notSlash g2"
       "g3 \<noteq> []" "list_all notSlash g3"
       "s = sch @ js ''://'' @ g1 @ js ''.'' @ g2 @ js ''/test/read.cgi/'' @ g3 @ js ''/'' @ r1"
       "y = (b1, r1, k(1 \<mapsto> g1, 2 \<mapsto> g2, 3 \<mapsto> g3))"
    by blast
  from xy obtain g4 r where g4: "g4 \<noteq> []" "list_all isDigit g4" "r1 = g4 @ r"
    and x: "x = (rev g4 @ b1, r, k(1 \<mapsto> g1, 2 \<mapsto> g2, 3 \<mapsto> g3, 4 \<mapsto> g4))"
    unfolding h(9) in_seqs_grp_plus in_seqs_Nil by blast
  have "s = sch @ js ''://'' @ g1 @ js ''.'' @ g2 @ js ''/test/read.cgi/'' @ g3 @ js ''/'' @ g4 @ r"
    by (simp only: h(8) g4(3))
  with h(1-7) g4(1,2) x show ?thesis by blast
qed

text \<open>A result is returned only for a URL that contains the pattern with a thread id of at
  least five digits.\<close>

lemma convertToDatUrl_Some_shape:
  assumes "convertToDatUrl url isDatOchi = Some res"
  shows "\<exists>pre sch server domain board threadId rest.
           url = pre @ sch @ js ''://'' @ server @ js ''.'' @ domain @ js ''/test/read.cgi/'' @
                 board @ js ''/'' @ threadId @ rest \<and>
           (sch = js ''http'' \<or> sch = js ''https'') \<and>
           server \<noteq> [] \<and> list_all notSlash server \<and> domain \<noteq> [] \<and> list_all notSlash domain \<and>
           board \<noteq> [] \<and> list_all notSlash board \<and>
           list_all isDigit threadId \<and> 5 \<le> length threadId"
proof -
  from assms obtain m where m: "match url_re url = Some m" and len: "\<not> length (group_of m 4) < 5"
    by (auto simp: convertToDatUrl_def Let_def split: option.splits if_splits)
  from search_SomeD[OF m[unfolded match_def]] obtain pre t b' r' k' tl where
    s: "url = pre @ t" "url_re (rev pre @ [], t, Map.empty) = (b', r', k') # tl" "groups m = k'"
    by blast
  then have "(b', r', k') \<in> set (url_re (rev pre @ [], t, Map.empty))" by simp
  from url_re_sound[OF this] obtain sch g1 g2 g3 g4 r b1 where
    h: "sch = js ''http'' \<or> sch = js ''https''"
       "g1 \<noteq> []" "list_all notSlash g1" "g2 \<noteq> []" "list_all notSlash g2"
       "g3 \<noteq> []" "list_all notSlash g3" "g4 \<noteq> []" "list_all isDigit g4"
       "t = sch @ js ''://'' @ g1 @ js ''.'' @ g2 @ js ''/test/read.cgi/'' @ g3 @ js ''/'' @ g4 @ r"
       "(b', r', k') = (b1, r, Map.empty(1 \<mapsto> g1, 2 \<mapsto> g2, 3 \<mapsto> g3, 4 \<mapsto> g4))"
    by blast
  from h(11) s(3) have "group_of m 4 = g4" by (simp add: group_of_def)
  with len have "5 \<le> length g4" by simp
  moreover have "url = pre @ sch @ js ''://'' @ g1 @ js ''.'' @ g2 @ js ''/test/read.cgi/'' @ g3 @ js ''/'' @ g4 @ r"
    by (simp only: s(1) h(10))
  ultimately show ?thesis using h(1-7,9) by blast
qed

lemma startsWith_self: "startsWith p (p @ c)"
  by (simp add: startsWith_append_iff)

lemma includes_str_append: "includes_str p (a @ p @ c)"
proof (induction a)
  case Nil
  show ?case using startsWith_self[of p c] by (cases "p @ c") auto
next
  case (Cons x xs)
  then show ?case by simp
qed

lemma shape_includes_path:
  "url = pre @ sch @ js ''://'' @ server @ js ''.'' @ domain @ js ''/test/read.cgi/'' @
                 board @ js ''/'' @ threadId @ rest \<Longrightarrow>
   includes_str (js ''/test/read.cgi/'') url"
  using includes_str_append[of "js ''/test/read.cgi/''"
          "pre @ sch @ js ''://'' @ server @ js ''.'' @ domain" "board @ js ''/'' @ threadId @ rest"]
  by simp

section \<open>Properties: the greedy first group of the URL pattern\<close>

lemma first_concat:
  "concat (map f xs) = z # zs \<Longrightarrow>
   \<exists>xs1 x xs2 fs. xs = xs1 @ x # xs2 \<and> (\<forall>y \<in> set xs1. f y = []) \<and> f x = z # fs"
proof (induction xs)
  case Nil
  then show ?case by simp
next
  case (Cons a xs)
  show ?case
  proof (cases "f a")
    case Nil
    with Cons.prems have "concat (map f xs) = z # zs" by simp
    from Cons.IH[OF this] obtain xs1 x xs2 fs where
      h: "xs = xs1 @ x # xs2" "\<forall>y \<in> set xs1. f y = []" "f x = z # fs" by blast
    from h Nil have "a # xs = (a # xs1) @ x # xs2 \<and> (\<forall>y \<in> set (a # xs1). f y = []) \<and> f x = z # fs"
      by simp
    then show ?thesis by blast
  next
    case (Cons w ws)
    with Cons.prems have "f a = z # ws" by simp
    then have "a # xs = [] @ a # xs \<and> (\<forall>y \<in> set []. f y = []) \<and> f a = z # ws" by simp
    then show ?thesis by blast
  qed
qed

text \<open>A greedy run lists its ends from the longest run to the shortest.\<close>

lemma star_sorted:
  "sorted_wrt (\<lambda>x y. length (fst (snd x)) < length (fst (snd y))) (star P (b, s, k))"
proof (induction s arbitrary: b)
  case Nil
  show ?case by simp
next
  case (Cons c cs)
  show ?case
  proof (cases "P c")
    case True
    have "\<forall>x \<in> set (star P (c # b, cs, k)). length (fst (snd x)) < length (c # cs)"
    proof
      fix x assume "x \<in> set (star P (c # b, cs, k))"
      then obtain run r where "cs = run @ r" "x = (rev run @ c # b, r, k)"
        unfolding in_star by blast
      then show "length (fst (snd x)) < length (c # cs)" by simp
    qed
    with True Cons.IH[of "c # b"] show ?thesis by (simp add: sorted_wrt_append)
  next
    case False
    then show ?thesis by simp
  qed
qed

lemma plus_g_sorted:
  "sorted_wrt (\<lambda>x y. length (fst (snd x)) < length (fst (snd y))) (plus_g P (b, s, k))"
proof (cases s)
  case Nil
  then show ?thesis by (simp add: plus_g_def then_m_def)
next
  case (Cons c cs)
  with star_sorted[of P "c # b" cs k] show ?thesis by (simp add: plus_g_def then_m_def)
qed

lemma grp_plus_g_sorted:
  "sorted_wrt (\<lambda>x y. length (fst (snd x)) < length (fst (snd y))) (grp n (plus_g P) (b, s, k))"
  using plus_g_sorted[of P b s k]
  by (simp add: sorted_wrt_map case_prod_beta)

lemma notSlash_dot: "list_all notSlash (js ''.'')"
  by (simp add: js_def notSlash_def)

text \<open>
  The first match of the pattern from its first group on: the text of the second group
  holds no dot followed by further text, since the first group, being greedy, would
  have taken everything up to that dot.
\<close>

lemma greedy_group1:
  assumes "seqs [grp 1 (plus_g notSlash), lit (js ''.''), grp 2 (plus_g notSlash),
                 lit (js ''/test/read.cgi/''), grp 3 (plus_g notSlash), lit (js ''/''),
                 grp 4 (plus_g isDigit)] (b, s, k) = z # zs"
  shows "\<exists>g2. snd (snd z) 2 = Some g2 \<and> (\<nexists>x y. y \<noteq> [] \<and> g2 = x @ js ''.'' @ y)"
proof -
  let ?ms = "[lit (js ''.''), grp 2 (plus_g notSlash),
              lit (js ''/test/read.cgi/''), grp 3 (plus_g notSlash), lit (js ''/''),
              grp 4 (plus_g isDigit)]"
  from assms have "concat (map (seqs ?ms) (grp 1 (plus_g notSlash) (b, s, k))) = z # zs"
    by (simp del: grp.simps)
  from first_concat[OF this] obtain xs1 x xs2 fs where
    sp: "grp 1 (plus_g notSlash) (b, s, k) = xs1 @ x # xs2"
    and none: "\<forall>y \<in> set xs1. seqs ?ms y = []"
    and zx: "seqs ?ms x = z # fs"
    by blast
  have "x \<in> set (grp 1 (plus_g notSlash) (b, s, k))" unfolding sp by simp
  then obtain run r where run: "run \<noteq> []" "list_all notSlash run" "s = run @ r"
    and x: "x = (rev run @ b, r, k(1 \<mapsto> run))"
    unfolding in_grp_plus by blast
  have "z \<in> set (seqs ?ms (rev run @ b, r, k(1 \<mapsto> run)))"
    using zx unfolding x by simp
  then obtain r1 where r1: "r = js ''.'' @ r1"
    and z1: "z \<in> set (seqs [grp 2 (plus_g notSlash),
              lit (js ''/test/read.cgi/''), grp 3 (plus_g notSlash), lit (js ''/''),
              grp 4 (plus_g isDigit)] (rev (js ''.'') @ rev run @ b, r1, k(1 \<mapsto> run)))"
    unfolding in_seqs_lit by blast
  from z1 obtain g2 r2 where g2: "g2 \<noteq> []" "list_all notSlash g2" "r1 = g2 @ r2"
    and z2: "z \<in> set (seqs [lit (js ''/test/read.cgi/''), grp 3 (plus_g notSlash), lit (js ''/''),
              grp 4 (plus_g isDigit)]
              (rev g2 @ rev (js ''.'') @ rev run @ b, r2, k(1 \<mapsto> run, 2 \<mapsto> g2)))"
    unfolding in_seqs_grp_plus by blast
  from z2 obtain r3 where r3: "r2 = js ''/test/read.cgi/'' @ r3"
    and z3: "z \<in> set (seqs [grp 3 (plus_g notSlash), lit (js ''/''), grp 4 (plus_g isDigit)]
              (rev (js ''/test/read.cgi/'') @ rev g2 @ rev (js ''.'') @ rev run @ b, r3,
               k(1 \<mapsto> run, 2 \<mapsto> g2)))"
    unfolding in_seqs_lit by blast
  from z3 obtain g3 r4 where g3: "g3 \<noteq> []" "list_all notSlash g3" "r3 = g3 @ r4"
    and z4: "z \<in> set (seqs [lit (js ''/''), grp 4 (plus_g isDigit)]
              (rev g3 @ rev (js ''/test/read.cgi/'') @ rev g2 @ rev (js ''.'') @ rev run @ b, r4,
               k(1 \<mapsto> run, 2 \<mapsto> g2, 3 \<mapsto> g3)))"
    unfolding in_seqs_grp_plus by blast
  from z4 obtain r5 where r5: "r4 = js ''/'' @ r5"
    and z5: "z \<in> set (seqs [grp 4 (plus_g isDigit)]
              (rev (js ''/'') @ rev g3 @ rev (js ''/test/read.cgi/'') @ rev g2 @ rev (js ''.'') @
               rev run @ b, r5, k(1 \<mapsto> run, 2 \<mapsto> g2, 3 \<mapsto> g3)))"
    unfolding in_seqs_lit by blast
  from z5 obtain g4 r6 where g4: "g4 \<noteq> []" "list_all isDigit g4" "r5 = g4 @ r6"
    and z: "z = (rev g4 @ rev (js ''/'') @ rev g3 @ rev (js ''/test/read.cgi/'') @ rev g2 @
                 rev (js ''.'') @ rev run @ b, r6,
                 k(1 \<mapsto> run, 2 \<mapsto> g2, 3 \<mapsto> g3, 4 \<mapsto> g4))"
    unfolding in_seqs_grp_plus in_seqs_Nil by blast
  have k2: "snd (snd z) 2 = Some g2" unfolding z by simp
  have nodot: "\<nexists>x0 y0. y0 \<noteq> [] \<and> g2 = x0 @ js ''.'' @ y0"
  proof
    assume "\<exists>x0 y0. y0 \<noteq> [] \<and> g2 = x0 @ js ''.'' @ y0"
    then obtain x0 y0 where y0: "y0 \<noteq> []" and g2e: "g2 = x0 @ js ''.'' @ y0" by blast
    let ?run' = "run @ js ''.'' @ x0"
    let ?r' = "js ''.'' @ y0 @ r2"
    let ?c = "(rev ?run' @ b, ?r', k(1 \<mapsto> ?run'))"
    from g2(2) g2e have nx: "list_all notSlash x0" "list_all notSlash y0" by simp_all
    have s': "s = ?run' @ ?r'" by (simp add: run(3) r1 g2(3) g2e)
    have "?run' \<noteq> [] \<and> list_all notSlash ?run' \<and> s = ?run' @ ?r' \<and> ?c = (rev ?run' @ b, ?r', k(1 \<mapsto> ?run'))"
      using run(1,2) nx(1) notSlash_dot s' by simp
    then have cin: "?c \<in> set (grp 1 (plus_g notSlash) (b, s, k))"
      unfolding in_grp_plus by blast
    \<comment> \<open>the longer first group can be continued to a match\<close>
    have m6: "(rev g4 @ rev (js ''/'') @ rev g3 @ rev (js ''/test/read.cgi/'') @ rev y0 @
               rev (js ''.'') @ rev ?run' @ b, r6,
               k(1 \<mapsto> ?run', 2 \<mapsto> y0, 3 \<mapsto> g3, 4 \<mapsto> g4)) \<in>
              set (seqs [grp 4 (plus_g isDigit)]
                (rev (js ''/'') @ rev g3 @ rev (js ''/test/read.cgi/'') @ rev y0 @ rev (js ''.'') @
                 rev ?run' @ b, g4 @ r6, k(1 \<mapsto> ?run', 2 \<mapsto> y0, 3 \<mapsto> g3)))"
      unfolding in_seqs_grp_plus in_seqs_Nil using g4(1,2) by blast
    have m5: "(rev g4 @ rev (js ''/'') @ rev g3 @ rev (js ''/test/read.cgi/'') @ rev y0 @
               rev (js ''.'') @ rev ?run' @ b, r6,
               k(1 \<mapsto> ?run', 2 \<mapsto> y0, 3 \<mapsto> g3, 4 \<mapsto> g4)) \<in>
              set (seqs [lit (js ''/''), grp 4 (plus_g isDigit)]
                (rev g3 @ rev (js ''/test/read.cgi/'') @ rev y0 @ rev (js ''.'') @
                 rev ?run' @ b, js ''/'' @ g4 @ r6, k(1 \<mapsto> ?run', 2 \<mapsto> y0, 3 \<mapsto> g3)))"
      unfolding in_seqs_lit[of _ "js ''/''"] using m6 by blast
    have m4: "(rev g4 @ rev (js ''/'') @ rev g3 @ rev (js ''/test/read.cgi/'') @ rev y0 @
               rev (js ''.'') @ rev ?run' @ b, r6,
               k(1 \<mapsto> ?run', 2 \<mapsto> y0, 3 \<mapsto> g3, 4 \<mapsto> g4)) \<in>
              set (seqs [grp 3 (plus_g notSlash), lit (js ''/''), grp 4 (plus_g isDigit)]
                (rev (js ''/test/read.cgi/'') @ rev y0 @ rev (js ''.'') @
                 rev ?run' @ b, g3 @ js ''/'' @ g4 @ r6, k(1 \<mapsto> ?run', 2 \<mapsto> y0)))"
      unfolding in_seqs_grp_plus using m5 g3(1,2) by blast
    have m3: "(rev g4 @ rev (js ''/'') @ rev g3 @ rev (js ''/test/read.cgi/'') @ rev y0 @
               rev (js ''.'') @ rev ?run' @ b, r6,
               k(1 \<mapsto> ?run', 2 \<mapsto> y0, 3 \<mapsto> g3, 4 \<mapsto> g4)) \<in>
              set (seqs [lit (js ''/test/read.cgi/''), grp 3 (plus_g notSlash), lit (js ''/''),
                         grp 4 (plus_g isDigit)]
                (rev y0 @ rev (js ''.'') @ rev ?run' @ b,
                 js ''/test/read.cgi/'' @ g3 @ js ''/'' @ g4 @ r6, k(1 \<mapsto> ?run', 2 \<mapsto> y0)))"
      unfolding in_seqs_lit[of _ "js ''/test/read.cgi/''"] using m4 by blast
    have m2: "(rev g4 @ rev (js ''/'') @ rev g3 @ rev (js ''/test/read.cgi/'') @ rev y0 @
               rev (js ''.'') @ rev ?run' @ b, r6,
               k(1 \<mapsto> ?run', 2 \<mapsto> y0, 3 \<mapsto> g3, 4 \<mapsto> g4)) \<in>
              set (seqs [grp 2 (plus_g notSlash), lit (js ''/test/read.cgi/''),
                         grp 3 (plus_g notSlash), lit (js ''/''), grp 4 (plus_g isDigit)]
                (rev (js ''.'') @ rev ?run' @ b,
                 y0 @ js ''/test/read.cgi/'' @ g3 @ js ''/'' @ g4 @ r6, k(1 \<mapsto> ?run')))"
      unfolding in_seqs_grp_plus using m3 y0 nx(2) by blast
    have m1: "(rev g4 @ rev (js ''/'') @ rev g3 @ rev (js ''/test/read.cgi/'') @ rev y0 @
               rev (js ''.'') @ rev ?run' @ b, r6,
               k(1 \<mapsto> ?run', 2 \<mapsto> y0, 3 \<mapsto> g3, 4 \<mapsto> g4)) \<in>
              set (seqs ?ms (rev ?run' @ b,
                 js ''.'' @ y0 @ js ''/test/read.cgi/'' @ g3 @ js ''/'' @ g4 @ r6, k(1 \<mapsto> ?run')))"
      unfolding in_seqs_lit[of _ "js ''.''"] using m2 by blast
    have "r2 = js ''/test/read.cgi/'' @ g3 @ js ''/'' @ g4 @ r6"
      by (simp only: r3 g3(3) r5 g4(3))
    with m1 have cne: "seqs ?ms ?c \<noteq> []" by (auto simp del: seqs.simps)
    \<comment> \<open>and it comes before the first group of the match\<close>
    have srt: "sorted_wrt (\<lambda>x y. length (fst (snd x)) < length (fst (snd y))) (xs1 @ x # xs2)"
      using grp_plus_g_sorted[of 1 notSlash b s k] unfolding sp .
    have lt: "length (fst (snd ?c)) < length (fst (snd x))"
      unfolding x by (simp add: r1 g2(3) g2e js_dot)
    from cin have "?c \<in> set xs1 \<or> ?c = x \<or> ?c \<in> set xs2" unfolding sp by auto
    then have "?c \<in> set xs1"
    proof (elim disjE)
      assume e: "?c = x"
      from lt[unfolded e] show ?thesis by simp
    next
      assume "?c \<in> set xs2"
      with srt have "length (fst (snd x)) < length (fst (snd ?c))"
        by (auto simp: sorted_wrt_append)
      with lt show ?thesis by simp
    qed
    with none have "seqs ?ms ?c = []" by blast
    with cne show False by contradiction
  qed
  from k2 nodot show ?thesis by blast
qed


lemma url_re_group2:
  assumes "url_re (b, s, k) = z # zs"
  shows "\<exists>g2. snd (snd z) 2 = Some g2 \<and> (\<nexists>x y. y \<noteq> [] \<and> g2 = x @ js ''.'' @ y)"
proof -
  have e: "url_re = seqs ([lit (js ''http''), opt (lit (js ''s'')), lit (js ''://'')] @
                       [grp 1 (plus_g notSlash), lit (js ''.''), grp 2 (plus_g notSlash),
                        lit (js ''/test/read.cgi/''), grp 3 (plus_g notSlash), lit (js ''/''),
                        grp 4 (plus_g isDigit)])"
    by (simp add: url_re_def)
  have "concat (map (seqs [grp 1 (plus_g notSlash), lit (js ''.''), grp 2 (plus_g notSlash),
                        lit (js ''/test/read.cgi/''), grp 3 (plus_g notSlash), lit (js ''/''),
                        grp 4 (plus_g isDigit)])
                     (seqs [lit (js ''http''), opt (lit (js ''s'')), lit (js ''://'')] (b, s, k))) = z # zs"
    using assms unfolding e seqs_append .
  from first_concat[OF this] obtain a fs where
    "seqs [grp 1 (plus_g notSlash), lit (js ''.''), grp 2 (plus_g notSlash),
           lit (js ''/test/read.cgi/''), grp 3 (plus_g notSlash), lit (js ''/''),
           grp 4 (plus_g isDigit)] a = z # fs"
    by blast
  moreover obtain ba sa ka where "a = (ba, sa, ka)" by (cases a) auto
  ultimately show ?thesis using greedy_group1 by blast
qed

text \<open>The second group of a match of the URL pattern is never one of the two flagship
  domains.\<close>

lemma url_match_not_flagship:
  assumes "match url_re url = Some m"
  shows "group_of m 2 \<noteq> js ''5ch.net'' \<and> group_of m 2 \<noteq> js ''bbspink.com''"
proof -
  from search_SomeD[OF assms[unfolded match_def]] obtain pre t b' r' k' tl where
    u: "url_re (rev pre @ [], t, Map.empty) = (b', r', k') # tl" and g: "groups m = k'"
    by blast
  from url_re_group2[OF u] obtain g2 where
    g2: "k' 2 = Some g2" and nd: "\<nexists>x y. y \<noteq> [] \<and> g2 = x @ js ''.'' @ y"
    by auto
  from g g2 have e: "group_of m 2 = g2" by (simp add: group_of_def)
  have a: "js ''net'' \<noteq> [] \<and> js ''5ch.net'' = js ''5ch'' @ js ''.'' @ js ''net''"
    by (simp add: js_def)
  have b: "js ''com'' \<noteq> [] \<and> js ''bbspink.com'' = js ''bbspink'' @ js ''.'' @ js ''com''"
    by (simp add: js_def)
  from nd a have "g2 \<noteq> js ''5ch.net''" by metis
  moreover from nd b have "g2 \<noteq> js ''bbspink.com''" by metis
  ultimately show ?thesis unfolding e by blast
qed

text \<open>So the archived address is the \<open>kako\<close> one for every URL that gives a result.\<close>

lemma convertToDatUrl_archived_kako:
  assumes "convertToDatUrl url True = Some res"
  shows "\<exists>m. match url_re url = Some m \<and>
             res = js ''https://'' @ group_of m 1 @ js ''.'' @ group_of m 2 @ js ''/'' @ group_of m 3 @
                   js ''/kako/'' @ take 4 (group_of m 4) @ js ''/'' @ take 5 (group_of m 4) @ js ''/'' @
                   group_of m 4 @ js ''.dat''"
proof -
  from assms obtain m where m: "match url_re url = Some m"
    by (cases "match url_re url") (simp_all add: convertToDatUrl_def)
  from url_match_not_flagship[OF m] assms m show ?thesis
    by (simp add: convertToDatUrl_def Let_def split: if_splits)
qed

lemma convertToDatUrl_archived_shape:
  assumes "sch = js ''http'' \<or> sch = js ''https''"
    "server \<noteq> []" "list_all notSlash server" "domain \<noteq> []" "list_all notSlash domain"
    "board \<noteq> []" "list_all notSlash board"
    "list_all isDigit threadId" "5 \<le> length threadId" "rest = [] \<or> \<not> isDigit (hd rest)"
  shows "convertToDatUrl (sch @ js ''://'' @ server @ js ''.'' @ domain @ js ''/test/read.cgi/'' @
                            board @ js ''/'' @ threadId @ rest) True =
           Some (js ''https://'' @ server @ js ''.'' @ domain @ js ''/'' @ board @ js ''/kako/'' @
                 take 4 threadId @ js ''/'' @ take 5 threadId @ js ''/'' @ threadId @ js ''.dat'')"
proof -
  from assms(9) have ne: "threadId \<noteq> []" by auto
  from url_match[OF assms(1-7) ne assms(8,10)] obtain m where
    m: "match url_re (sch @ js ''://'' @ server @ js ''.'' @ domain @ js ''/test/read.cgi/'' @
                      board @ js ''/'' @ threadId @ rest) = Some m"
    and g: "group_of m 1 @ js ''.'' @ group_of m 2 = server @ js ''.'' @ domain"
           "group_of m 3 = board" "group_of m 4 = threadId"
    by blast
  from url_match_not_flagship[OF m]
  have nf: "group_of m 2 \<noteq> js ''5ch.net''" "group_of m 2 \<noteq> js ''bbspink.com''" by blast+
  have "js ''https://'' @ group_of m 1 @ js ''.'' @ group_of m 2 @ js ''/'' @ board @ js ''/kako/'' @
          take 4 threadId @ js ''/'' @ take 5 threadId @ js ''/'' @ threadId @ js ''.dat'' =
        js ''https://'' @ (group_of m 1 @ js ''.'' @ group_of m 2) @ js ''/'' @ board @ js ''/kako/'' @
          take 4 threadId @ js ''/'' @ take 5 threadId @ js ''/'' @ threadId @ js ''.dat''"
    by simp
  also have "\<dots> = js ''https://'' @ server @ js ''.'' @ domain @ js ''/'' @ board @ js ''/kako/'' @
          take 4 threadId @ js ''/'' @ take 5 threadId @ js ''/'' @ threadId @ js ''.dat''"
    unfolding g(1) by simp
  finally show ?thesis
    using assms(9) nf by (simp add: convertToDatUrl_def m g(2,3) Let_def)
qed

section \<open>Properties: the URL deriver\<close>

text \<open>
  Claim C2, evaluated at an archived thread of a flagship domain. The first group of the
  pattern is greedy, so the second group holds only the text behind the last dot of the
  host (here \<open>net\<close>) and the comparison with \<open>5ch.net\<close> fails: the result is the
  \<open>kako\<close> address, not the \<open>oyster\<close> one. By \<open>url_match_not_flagship\<close> this is so
  for every URL: the \<open>oyster\<close> branch is never taken, and by
  \<open>convertToDatUrl_archived_shape\<close> every URL of the pattern's shape gets the
  \<open>kako\<close> address.
\<close>

theorem convertToDatUrl_flagship_archived:
  "convertToDatUrl (js ''https://egg.5ch.net/test/read.cgi/board/1234567890/'') True =
     Some (js ''https://egg.5ch.net/board/kako/1234/12345/1234567890.dat'')"
  by code_simp

text \<open>
  Claim C3, as stated, fails for an \<open>http\<close> URL: the result does not keep the scheme of
  the input, it always starts with \<open>https://\<close>.
\<close>

theorem convertToDatUrl_live_scheme_upgraded:
  "convertToDatUrl (js ''http://egg.5ch.net/test/read.cgi/board/1234567890'') False =
     Some (js ''https://egg.5ch.net/board/dat/1234567890.dat'') \<and>
   convertToDatUrl (js ''http://egg.5ch.net/test/read.cgi/board/1234567890'') False \<noteq>
     Some (js ''http://egg.5ch.net/board/dat/1234567890.dat'')"
  by code_simp

text \<open>
  Claim C3, amended. For a URL \<open>http(s)://server.domain/test/read.cgi/board/threadId\<close>
  followed by anything that does not start with a digit, where server, domain and board
  are non-empty and free of \<open>/\<close> and the thread id has at least five digits, the live
  address is \<open>https://server.domain/board/dat/threadId.dat\<close>: server, domain and board
  of the input, and the scheme \<open>https\<close> whatever the input's scheme.
\<close>

theorem convertToDatUrl_live:
  assumes "sch = js ''http'' \<or> sch = js ''https''"
    "server \<noteq> []" "list_all notSlash server" "domain \<noteq> []" "list_all notSlash domain"
    "board \<noteq> []" "list_all notSlash board"
    "list_all isDigit threadId" "5 \<le> length threadId" "rest = [] \<or> \<not> isDigit (hd rest)"
  shows "convertToDatUrl (sch @ js ''://'' @ server @ js ''.'' @ domain @ js ''/test/read.cgi/'' @
                            board @ js ''/'' @ threadId @ rest) False =
           Some (js ''https://'' @ server @ js ''.'' @ domain @ js ''/'' @ board @ js ''/dat/'' @
                 threadId @ js ''.dat'')"
proof -
  from assms(9) have ne: "threadId \<noteq> []" by auto
  from url_match[OF assms(1-7) ne assms(8,10)] obtain m where
    m: "match url_re (sch @ js ''://'' @ server @ js ''.'' @ domain @ js ''/test/read.cgi/'' @
                      board @ js ''/'' @ threadId @ rest) = Some m"
    and g: "group_of m 1 @ js ''.'' @ group_of m 2 = server @ js ''.'' @ domain"
           "group_of m 3 = board" "group_of m 4 = threadId"
    by blast
  have "js ''https://'' @ group_of m 1 @ js ''.'' @ group_of m 2 @ js ''/'' @ board @ js ''/dat/'' @
          threadId @ js ''.dat'' =
        js ''https://'' @ (group_of m 1 @ js ''.'' @ group_of m 2) @ js ''/'' @ board @ js ''/dat/'' @
          threadId @ js ''.dat''"
    by simp
  also have "\<dots> = js ''https://'' @ server @ js ''.'' @ domain @ js ''/'' @ board @ js ''/dat/'' @
          threadId @ js ''.dat''"
    unfolding g(1) by simp
  finally show ?thesis
    using assms(9) by (simp add: convertToDatUrl_def m g(2,3) Let_def)
qed

theorem convertToDatUrl_live_witness:
  "list_all notSlash (js ''egg'') \<and> list_all notSlash (js ''5ch.net'') \<and>
   list_all notSlash (js ''board'') \<and> list_all isDigit (js ''1234567890'') \<and>
   5 \<le> length (js ''1234567890'') \<and> \<not> isDigit (hd (js ''/'')) \<and>
   convertToDatUrl (js ''http'' @ js ''://'' @ js ''egg'' @ js ''.'' @ js ''5ch.net'' @
                    js ''/test/read.cgi/'' @ js ''board'' @ js ''/'' @ js ''1234567890'' @ js ''/'') False =
     Some (js ''https://'' @ js ''egg'' @ js ''.'' @ js ''5ch.net'' @ js ''/'' @ js ''board'' @
           js ''/dat/'' @ js ''1234567890'' @ js ''.dat'')"
proof -
  have h1: "js ''http'' = js ''http'' \<or> js ''http'' = js ''https''" by simp
  have h2: "js ''egg'' \<noteq> []" by (simp add: js_def)
  have h3: "list_all notSlash (js ''egg'')" by code_simp
  have h4: "js ''5ch.net'' \<noteq> []" by (simp add: js_def)
  have h5: "list_all notSlash (js ''5ch.net'')" by code_simp
  have h6: "js ''board'' \<noteq> []" by (simp add: js_def)
  have h7: "list_all notSlash (js ''board'')" by code_simp
  have h8: "list_all isDigit (js ''1234567890'')" by code_simp
  have h9: "5 \<le> length (js ''1234567890'')" by (simp add: js_def)
  have h10': "\<not> isDigit (hd (js ''/''))" by code_simp
  then have h10: "js ''/'' = [] \<or> \<not> isDigit (hd (js ''/''))" by simp
  note t = convertToDatUrl_live[OF h1 h2 h3 h4 h5 h6 h7 h8 h9 h10]
  show ?thesis by (intro conjI h3 h5 h7 h8 h9 h10' t)
qed

text \<open>
  Claim C4. \<open>convertToDatUrl\<close> returns \<open>null\<close>, for both values of the flag, when the URL
  contains no text of the pattern's shape with a thread id of at least five digits, in
  particular when it lacks \<open>/test/read.cgi/\<close>; when the pattern does not match; and when
  the matched thread id has fewer than five characters, as for a URL of the pattern's
  shape whose thread id is short. The model has no branch for an exception: the \<open>try\<close>
  block of the source holds total string operations only.
\<close>

theorem convertToDatUrl_null:
  "((\<nexists>pre sch server domain board threadId rest.
        url = pre @ sch @ js ''://'' @ server @ js ''.'' @ domain @ js ''/test/read.cgi/'' @
              board @ js ''/'' @ threadId @ rest \<and>
        (sch = js ''http'' \<or> sch = js ''https'') \<and>
        server \<noteq> [] \<and> list_all notSlash server \<and> domain \<noteq> [] \<and> list_all notSlash domain \<and>
        board \<noteq> [] \<and> list_all notSlash board \<and>
        list_all isDigit threadId \<and> 5 \<le> length threadId) \<longrightarrow>
      convertToDatUrl url isDatOchi = None) \<and>
   (\<not> includes_str (js ''/test/read.cgi/'') url \<longrightarrow> convertToDatUrl url isDatOchi = None) \<and>
   (match url_re url = None \<longrightarrow> convertToDatUrl url isDatOchi = None) \<and>
   (\<forall>m. match url_re url = Some m \<and> length (group_of m 4) < 5 \<longrightarrow>
        convertToDatUrl url isDatOchi = None) \<and>
   ((sch = js ''http'' \<or> sch = js ''https'') \<and>
    server \<noteq> [] \<and> list_all notSlash server \<and> domain \<noteq> [] \<and> list_all notSlash domain \<and>
    board \<noteq> [] \<and> list_all notSlash board \<and>
    threadId \<noteq> [] \<and> list_all isDigit threadId \<and> length threadId < 5 \<and>
    (rest = [] \<or> \<not> isDigit (hd rest)) \<longrightarrow>
      convertToDatUrl (sch @ js ''://'' @ server @ js ''.'' @ domain @ js ''/test/read.cgi/'' @
                       board @ js ''/'' @ threadId @ rest) isDatOchi = None)"
proof -
  have a: "(\<nexists>pre sch server domain board threadId rest.
        url = pre @ sch @ js ''://'' @ server @ js ''.'' @ domain @ js ''/test/read.cgi/'' @
              board @ js ''/'' @ threadId @ rest \<and>
        (sch = js ''http'' \<or> sch = js ''https'') \<and>
        server \<noteq> [] \<and> list_all notSlash server \<and> domain \<noteq> [] \<and> list_all notSlash domain \<and>
        board \<noteq> [] \<and> list_all notSlash board \<and>
        list_all isDigit threadId \<and> 5 \<le> length threadId) \<longrightarrow>
      convertToDatUrl url isDatOchi = None"
  proof
    assume n: "\<nexists>pre sch server domain board threadId rest.
        url = pre @ sch @ js ''://'' @ server @ js ''.'' @ domain @ js ''/test/read.cgi/'' @
              board @ js ''/'' @ threadId @ rest \<and>
        (sch = js ''http'' \<or> sch = js ''https'') \<and>
        server \<noteq> [] \<and> list_all notSlash server \<and> domain \<noteq> [] \<and> list_all notSlash domain \<and>
        board \<noteq> [] \<and> list_all notSlash board \<and>
        list_all isDigit threadId \<and> 5 \<le> length threadId"
    show "convertToDatUrl url isDatOchi = None"
    proof (cases "convertToDatUrl url isDatOchi")
      case None
      then show ?thesis .
    next
      case (Some res)
      from n convertToDatUrl_Some_shape[OF Some] show ?thesis by (rule notE)
    qed
  qed
  have b: "\<not> includes_str (js ''/test/read.cgi/'') url \<longrightarrow> convertToDatUrl url isDatOchi = None"
  proof
    assume n: "\<not> includes_str (js ''/test/read.cgi/'') url"
    show "convertToDatUrl url isDatOchi = None"
    proof (cases "convertToDatUrl url isDatOchi")
      case None
      then show ?thesis .
    next
      case (Some res)
      from convertToDatUrl_Some_shape[OF Some] obtain pre sch server domain board threadId rest where
        "url = pre @ sch @ js ''://'' @ server @ js ''.'' @ domain @ js ''/test/read.cgi/'' @
              board @ js ''/'' @ threadId @ rest" by blast
      from shape_includes_path[OF this] n show ?thesis by (rule notE[rotated])
    qed
  qed
  have c: "match url_re url = None \<longrightarrow> convertToDatUrl url isDatOchi = None"
    by (simp add: convertToDatUrl_def)
  have d: "\<forall>m. match url_re url = Some m \<and> length (group_of m 4) < 5 \<longrightarrow>
        convertToDatUrl url isDatOchi = None"
    by (simp add: convertToDatUrl_def Let_def)
  have e: "(sch = js ''http'' \<or> sch = js ''https'') \<and>
    server \<noteq> [] \<and> list_all notSlash server \<and> domain \<noteq> [] \<and> list_all notSlash domain \<and>
    board \<noteq> [] \<and> list_all notSlash board \<and>
    threadId \<noteq> [] \<and> list_all isDigit threadId \<and> length threadId < 5 \<and>
    (rest = [] \<or> \<not> isDigit (hd rest)) \<longrightarrow>
      convertToDatUrl (sch @ js ''://'' @ server @ js ''.'' @ domain @ js ''/test/read.cgi/'' @
                       board @ js ''/'' @ threadId @ rest) isDatOchi = None"
  proof
    assume h: "(sch = js ''http'' \<or> sch = js ''https'') \<and>
      server \<noteq> [] \<and> list_all notSlash server \<and> domain \<noteq> [] \<and> list_all notSlash domain \<and>
      board \<noteq> [] \<and> list_all notSlash board \<and>
      threadId \<noteq> [] \<and> list_all isDigit threadId \<and> length threadId < 5 \<and>
      (rest = [] \<or> \<not> isDigit (hd rest))"
    then have h': "sch = js ''http'' \<or> sch = js ''https''" "server \<noteq> []" "list_all notSlash server"
      "domain \<noteq> []" "list_all notSlash domain" "board \<noteq> []" "list_all notSlash board"
      "threadId \<noteq> []" "list_all isDigit threadId" "rest = [] \<or> \<not> isDigit (hd rest)"
      and short: "length threadId < 5"
      by blast+
    from url_match[OF h'] obtain m where
      m: "match url_re (sch @ js ''://'' @ server @ js ''.'' @ domain @ js ''/test/read.cgi/'' @
                      board @ js ''/'' @ threadId @ rest) = Some m"
      and g: "group_of m 4 = threadId"
      by blast
    from short show "convertToDatUrl (sch @ js ''://'' @ server @ js ''.'' @ domain @ js ''/test/read.cgi/'' @
                       board @ js ''/'' @ threadId @ rest) isDatOchi = None"
      by (simp add: convertToDatUrl_def m g Let_def)
  qed
  show ?thesis by (rule conjI[OF a conjI[OF b conjI[OF c conjI[OF d e]]]])
qed

theorem convertToDatUrl_null_witness:
  "\<not> includes_str (js ''/test/read.cgi/'') (js ''https://egg.5ch.net/board/1234567890/'') \<and>
   convertToDatUrl (js ''https://egg.5ch.net/board/1234567890/'') True = None \<and>
   convertToDatUrl (js ''https://egg.5ch.net/board/1234567890/'') False = None \<and>
   list_all isDigit (js ''1234'') \<and> length (js ''1234'') < 5 \<and>
   convertToDatUrl (js ''https'' @ js ''://'' @ js ''egg'' @ js ''.'' @ js ''5ch.net'' @
                    js ''/test/read.cgi/'' @ js ''board'' @ js ''/'' @ js ''1234'' @ js ''/'') True = None"
proof -
  have n: "\<not> includes_str (js ''/test/read.cgi/'') (js ''https://egg.5ch.net/board/1234567890/'')"
    by code_simp
  have h: "(js ''https'' = js ''http'' \<or> js ''https'' = js ''https'') \<and>
    js ''egg'' \<noteq> [] \<and> list_all notSlash (js ''egg'') \<and> js ''5ch.net'' \<noteq> [] \<and>
    list_all notSlash (js ''5ch.net'') \<and>
    js ''board'' \<noteq> [] \<and> list_all notSlash (js ''board'') \<and>
    js ''1234'' \<noteq> [] \<and> list_all isDigit (js ''1234'') \<and> length (js ''1234'') < 5 \<and>
    (js ''/'' = [] \<or> \<not> isDigit (hd (js ''/'')))"
    by code_simp
  then have d: "list_all isDigit (js ''1234'')" "length (js ''1234'') < 5" by blast+
  from convertToDatUrl_null[of "js ''https://egg.5ch.net/board/1234567890/''" True] n
  have a: "convertToDatUrl (js ''https://egg.5ch.net/board/1234567890/'') True = None" by blast
  from convertToDatUrl_null[of "js ''https://egg.5ch.net/board/1234567890/''" False] n
  have b: "convertToDatUrl (js ''https://egg.5ch.net/board/1234567890/'') False = None" by blast
  from convertToDatUrl_null[of _ True "js ''https''" "js ''egg''" "js ''5ch.net''" "js ''board''" "js ''1234''" "js ''/''"] h
  have c: "convertToDatUrl (js ''https'' @ js ''://'' @ js ''egg'' @ js ''.'' @ js ''5ch.net'' @
                    js ''/test/read.cgi/'' @ js ''board'' @ js ''/'' @ js ''1234'' @ js ''/'') True = None"
    by blast
  show ?thesis by (intro conjI n a b d c)
qed

section \<open>Properties: the round trip through the dat format\<close>

lemma split_lines:
  "\<forall>l \<in> set ls. LF \<notin> set l \<Longrightarrow>
   split [LF] (concat (map (\<lambda>l. l @ [LF]) ls)) = ls @ [[]]"
proof -
  assume a: "\<forall>l \<in> set ls. LF \<notin> set l"
  have "split_go [LF] [] (concat (map (\<lambda>l. l @ [LF]) ls)) = ls @ [[]]"
    using a
  proof (induction ls)
    case Nil
    show ?case by simp
  next
    case (Cons l ls)
    then have "LF \<notin> set l" by simp
    from split_go_char[OF this, of "[]" "concat (map (\<lambda>l. l @ [LF]) ls)"] Cons
    show ?case by simp
  qed
  then show ?thesis by (simp add: split_def)
qed

lemma in_set_dropWhile: "c \<in> set xs \<Longrightarrow> \<not> P c \<Longrightarrow> c \<in> set (dropWhile P xs)"
  by (induction xs) auto

lemma trim_nonempty:
  assumes "c \<in> set s" "\<not> isWhiteSpace c"
  shows "trim s \<noteq> []"
proof
  assume e: "trim s = []"
  from in_set_dropWhile[of c s isWhiteSpace, OF assms]
  have "c \<in> set (rev (dropWhile isWhiteSpace s))" by simp
  from in_set_dropWhile[of c _ isWhiteSpace, OF this assms(2)]
  have "c \<in> set (trim s)" by (simp add: trim_def)
  with e show False by simp
qed

lemma trim_snoc_space:
  assumes "isWhiteSpace c"
  shows "trim (s @ [c]) = trim s"
proof (cases "\<forall>x \<in> set s. isWhiteSpace x")
  case True
  then have a: "dropWhile isWhiteSpace s = []" by (simp add: dropWhile_eq_Nil_conv)
  from True assms have b: "dropWhile isWhiteSpace (s @ [c]) = []"
    by (simp add: dropWhile_eq_Nil_conv)
  show ?thesis unfolding trim_def a b by (rule refl)
next
  case False
  then obtain x where "x \<in> set s" "\<not> isWhiteSpace x" by blast
  then have "dropWhile isWhiteSpace (s @ [c]) = dropWhile isWhiteSpace s @ [c]"
    by (rule dropWhile_append1)
  with assms show ?thesis by (simp add: trim_def)
qed

lemma datLine_trim: "trim (datLine p) \<noteq> []"
proof -
  have "0x3C \<in> set (datLine p)" by (simp add: datLine_def js_def)
  moreover have "\<not> isWhiteSpace 0x3C" by (simp add: isWhiteSpace_def)
  ultimately show ?thesis by (rule trim_nonempty)
qed

lemma includes_sep_append:
  "\<not> includes_str [0x3C, 0x3E] a \<Longrightarrow> \<not> includes_str [0x3C, 0x3E] b \<Longrightarrow>
   a = [] \<or> last a \<noteq> 0x3C \<or> b = [] \<or> hd b \<noteq> 0x3E \<Longrightarrow>
   \<not> includes_str [0x3C, 0x3E] (a @ b)"
proof (induction a)
  case Nil
  then show ?case by simp
next
  case (Cons x xs)
  show ?case
  proof (cases xs)
    case Nil
    with Cons.prems show ?thesis by (cases b) auto
  next
    case (Cons y ys)
    with Cons.prems Cons.IH show ?thesis by auto
  qed
qed


text \<open>Searching: the positions before the first match.\<close>

lemma search_skip:
  "(\<And>i. i < length pre \<Longrightarrow> m (rev (take i pre) @ b, drop i pre @ t, Map.empty) = []) \<Longrightarrow>
   search m b (pre @ t) = search m (rev pre @ b) t"
proof (induction pre arbitrary: b)
  case Nil
  show ?case by simp
next
  case (Cons c cs)
  from Cons.prems[of 0] have z: "m (b, c # cs @ t, Map.empty) = []" by simp
  have "search m (c # b) (cs @ t) = search m (rev cs @ c # b) t"
  proof (rule Cons.IH)
    fix i assume "i < length cs"
    then have "Suc i < length (c # cs)" by simp
    from Cons.prems[OF this] show "m (rev (take i cs) @ c # b, drop i cs @ t, Map.empty) = []" by simp
  qed
  with z show ?case by simp
qed

lemma search_NoneD:
  "search m b s = None \<Longrightarrow> i \<le> length s \<Longrightarrow> m (rev (take i s) @ b, drop i s, Map.empty) = []"
proof (induction s arbitrary: b i)
  case Nil
  then show ?case by (cases "m (b, [], Map.empty)") auto
next
  case (Cons c cs)
  note prems = Cons.prems and IH = Cons.IH
  from prems(1) have z: "m (b, c # cs, Map.empty) = []"
    by (cases "m (b, c # cs, Map.empty)") auto
  with prems(1) have n: "search m (c # b) cs = None" by simp
  show ?case
  proof (cases i)
    case 0
    with z show ?thesis by simp
  next
    case (Suc j)
    with prems(2) have "j \<le> length cs" by simp
    from IH[OF n this] Suc show ?thesis by simp
  qed
qed

lemma search_None_iff:
  "search m b s = None \<longleftrightarrow> (\<forall>i \<le> length s. m (rev (take i s) @ b, drop i s, Map.empty) = [])"
proof
  assume "search m b s = None"
  then show "\<forall>i \<le> length s. m (rev (take i s) @ b, drop i s, Map.empty) = []"
    using search_NoneD by blast
next
  assume "\<forall>i \<le> length s. m (rev (take i s) @ b, drop i s, Map.empty) = []"
  then show "search m b s = None"
  proof (induction s arbitrary: b)
    case Nil
    then show ?case by simp
  next
    case (Cons c cs)
    from Cons.prems have z: "m (b, c # cs, Map.empty) = []" by force
    have "\<forall>i \<le> length cs. m (rev (take i cs) @ c # b, drop i cs, Map.empty) = []"
    proof (intro allI impI)
      fix i assume "i \<le> length cs"
      then have "Suc i \<le> length (c # cs)" by simp
      with Cons.prems have "m (rev (take (Suc i) (c # cs)) @ b, drop (Suc i) (c # cs), Map.empty) = []"
        by blast
      then show "m (rev (take i cs) @ c # b, drop i cs, Map.empty) = []" by simp
    qed
    from Cons.IH[OF this] z show ?case by simp
  qed
qed

lemma search_first:
  assumes "\<And>i. i < length pre \<Longrightarrow> m (rev (take i pre) @ b, drop i pre @ t, Map.empty) = []"
    and "m (rev pre @ b, t, Map.empty) = (b', r', k') # rs"
  shows "search m b (pre @ t) =
           Some \<lparr>index = length b + length pre, whole = take (length t - length r') t,
                 groups = k', after = r'\<rparr>"
proof -
  have "search m b (pre @ t) = search m (rev pre @ b) t"
    using assms(1) by (rule search_skip)
  also have "\<dots> = Some \<lparr>index = length b + length pre, whole = take (length t - length r') t,
                 groups = k', after = r'\<rparr>"
    using assms(2) by (cases t) simp_all
  finally show ?thesis .
qed

lemma star_nonempty: "star P st \<noteq> []"
proof -
  obtain b s k where st: "st = (b, s, k)" by (cases st) auto
  have "star P (b, s, k) \<noteq> []" by (induction s arbitrary: b) auto
  with st show ?thesis by simp
qed

lemma plus_g_Nil_iff: "plus_g P (b, s, k) = [] \<longleftrightarrow> s = [] \<or> \<not> P (hd s)"
  by (cases s) (auto simp: plus_g_def then_m_def star_nonempty)

lemma js_ID: "js ''ID:'' = [0x49, 0x44, 0x3A]"
  by (simp add: js_def)

lemma js_sp_ID: "js '' ID:'' = 0x20 # js ''ID:''"
  by (simp add: js_def)

lemma seqs_lit_Cons:
  "seqs (lit p # ms) (b, s, k) =
     (if startsWith p s then seqs ms (rev p @ b, drop (length p) s, k) else [])"
  by (simp add: lit_eq)

lemma id_re0_eq:
  "id_re0 (b, s, k) =
     (if startsWith (js ''ID:'') s
      then plus_g notWhiteSpace (rev (js ''ID:'') @ b, drop 3 s, k) else [])"
  unfolding id_re0_def seqs_lit_Cons seqs_single by (simp add: js_ID numeral_3_eq_3)

lemma id_re_eq:
  "id_re (b, s, k) =
     (if startsWith (js ''ID:'') s
      then grp 1 (plus_g notWhiteSpace) (rev (js ''ID:'') @ b, drop 3 s, k) else [])"
  unfolding id_re_def seqs_lit_Cons seqs_single by (simp add: js_ID numeral_3_eq_3 del: grp.simps)

lemma id_re0_Nil_iff:
  "id_re0 (b, s, k) = [] \<longleftrightarrow>
     \<not> (startsWith (js ''ID:'') s \<and> drop 3 s \<noteq> [] \<and> notWhiteSpace (hd (drop 3 s)))"
  by (auto simp: id_re0_eq plus_g_Nil_iff)

lemma id_re_Nil_iff:
  "id_re (b, s, k) = [] \<longleftrightarrow>
     \<not> (startsWith (js ''ID:'') s \<and> drop 3 s \<noteq> [] \<and> notWhiteSpace (hd (drop 3 s)))"
  by (auto simp: id_re_eq plus_g_Nil_iff)

lemma no_id_extend:
  assumes "\<not> (startsWith (js ''ID:'') d \<and> drop 3 d \<noteq> [] \<and> notWhiteSpace (hd (drop 3 d)))"
  shows "\<not> (startsWith (js ''ID:'') (d @ js '' ID:'' @ x) \<and> drop 3 (d @ js '' ID:'' @ x) \<noteq> [] \<and>
            notWhiteSpace (hd (drop 3 (d @ js '' ID:'' @ x))))"
proof (cases d)
  case Nil
  then show ?thesis by (simp add: js_def)
next
  case (Cons a d1)
  note d = Cons
  show ?thesis
  proof (cases d1)
    case Nil
    with d show ?thesis by (simp add: js_def)
  next
    case (Cons a2 d2)
    note d1 = Cons
    show ?thesis
    proof (cases d2)
      case Nil
      with d d1 show ?thesis by (simp add: js_def)
    next
      case (Cons a3 d3)
      note d2 = Cons
      show ?thesis
      proof (cases d3)
        case Nil
        with d d1 d2 show ?thesis by (simp add: js_def notWhiteSpace_def isWhiteSpace_def)
      next
        case (Cons a4 d4)
        with d d1 d2 assms show ?thesis by (simp add: js_def)
      qed
    qed
  qed
qed


lemma grp_Nil_iff: "grp n m st = [] \<longleftrightarrow> m st = []"
  by (cases st) simp

text \<open>Where the date has no match of the id pattern, neither has any position of the
  date within the date followed by \<open> ID:\<close> and an id.\<close>

lemma id_re0_date_positions:
  assumes "match id_re0 d = None" "i \<le> length d"
  shows "id_re0 (b, drop i d @ js '' ID:'' @ x, k) = []"
    and "id_re (b, drop i d @ js '' ID:'' @ x, k) = []"
proof -
  from search_NoneD[OF assms(1)[unfolded match_def] assms(2)]
  have "id_re0 (rev (take i d) @ [], drop i d, Map.empty) = []" .
  then have n: "\<not> (startsWith (js ''ID:'') (drop i d) \<and> drop 3 (drop i d) \<noteq> [] \<and>
                   notWhiteSpace (hd (drop 3 (drop i d))))"
    unfolding id_re0_Nil_iff .
  from no_id_extend[OF n, of x]
  show "id_re0 (b, drop i d @ js '' ID:'' @ x, k) = []"
    and "id_re (b, drop i d @ js '' ID:'' @ x, k) = []"
    unfolding id_re0_Nil_iff id_re_Nil_iff by blast+
qed

lemma id_re_at:
  assumes "x \<noteq> []" "list_all notWhiteSpace x"
  shows "\<exists>b' rs. id_re (b, js ''ID:'' @ x, k) = (b', [], k(1 \<mapsto> x)) # rs"
    and "\<exists>b' rs. id_re0 (b, js ''ID:'' @ x, k) = (b', [], k) # rs"
proof -
  have sw: "startsWith (js ''ID:'') (js ''ID:'' @ x)" by (rule startsWith_self)
  have dr: "drop 3 (js ''ID:'' @ x) = x @ []" by (simp add: js_ID)
  from plus_first[OF assms, of "[]" "rev (js ''ID:'') @ b" k]
  obtain rs where p: "plus_g notWhiteSpace (rev (js ''ID:'') @ b, x @ [], k) =
                        (rev x @ rev (js ''ID:'') @ b, [], k) # rs"
    by blast
  show "\<exists>b' rs. id_re0 (b, js ''ID:'' @ x, k) = (b', [], k) # rs"
    unfolding id_re0_eq dr using sw p by simp
  show "\<exists>b' rs. id_re (b, js ''ID:'' @ x, k) = (b', [], k(1 \<mapsto> x)) # rs"
    unfolding id_re_eq dr using sw p by simp
qed

lemma date_id_match:
  assumes d: "match id_re0 d = None" and x: "x \<noteq> []" "list_all notWhiteSpace x"
  shows "\<exists>m. match id_re (d @ js '' ID:'' @ x) = Some m \<and> group_of m 1 = x"
    and "replace_first id_re0 [] (d @ js '' ID:'' @ x) = d @ [0x20]"
proof -
  have e: "d @ js '' ID:'' @ x = (d @ [0x20]) @ (js ''ID:'' @ x)" by (simp add: js_sp_ID)
  have pos: "drop i (d @ [0x20]) @ js ''ID:'' @ x = drop i d @ js '' ID:'' @ x"
    if "i < length (d @ [0x20])" for i
    using that by (simp add: js_sp_ID)
  have skip: "id_re (rev (take i (d @ [0x20])) @ [], drop i (d @ [0x20]) @ js ''ID:'' @ x, Map.empty) = []"
    if "i < length (d @ [0x20])" for i
  proof -
    from that have "i \<le> length d" by simp
    from id_re0_date_positions(2)[OF d this] show ?thesis unfolding pos[OF that] .
  qed
  have skip0: "id_re0 (rev (take i (d @ [0x20])) @ [], drop i (d @ [0x20]) @ js ''ID:'' @ x, Map.empty) = []"
    if "i < length (d @ [0x20])" for i
  proof -
    from that have "i \<le> length d" by simp
    from id_re0_date_positions(1)[OF d this] show ?thesis unfolding pos[OF that] .
  qed
  from id_re_at(1)[OF x, of "rev (d @ [0x20]) @ []" Map.empty] obtain b' rs where
    f: "id_re (rev (d @ [0x20]) @ [], js ''ID:'' @ x, Map.empty) = (b', [], [1 \<mapsto> x]) # rs"
    by blast
  from search_first[of "d @ [0x20]" id_re "[]" "js ''ID:'' @ x", OF skip f]
  have "match id_re (d @ js '' ID:'' @ x) =
          Some \<lparr>index = length ([] :: jsstring) + length (d @ [0x20]),
                whole = take (length (js ''ID:'' @ x) - length ([] :: jsstring)) (js ''ID:'' @ x),
                groups = [1 \<mapsto> x], after = []\<rparr>"
    unfolding match_def e by blast
  then show "\<exists>m. match id_re (d @ js '' ID:'' @ x) = Some m \<and> group_of m 1 = x"
    by (simp add: group_of_def)
  from id_re_at(2)[OF x, of "rev (d @ [0x20]) @ []" Map.empty] obtain b0 rs0 where
    f0: "id_re0 (rev (d @ [0x20]) @ [], js ''ID:'' @ x, Map.empty) = (b0, [], Map.empty) # rs0"
    by blast
  from search_first[of "d @ [0x20]" id_re0 "[]" "js ''ID:'' @ x", OF skip0 f0]
  have "match id_re0 (d @ js '' ID:'' @ x) =
          Some \<lparr>index = length ([] :: jsstring) + length (d @ [0x20]),
                whole = take (length (js ''ID:'' @ x) - length ([] :: jsstring)) (js ''ID:'' @ x),
                groups = Map.empty, after = []\<rparr>"
    unfolding match_def e by blast
  then show "replace_first id_re0 [] (d @ js '' ID:'' @ x) = d @ [0x20]"
    by (simp add: replace_first_def js_sp_ID)
qed

lemma date_no_id:
  assumes "match id_re0 d = None"
  shows "match id_re d = None" and "replace_first id_re0 [] d = d"
proof -
  have "\<forall>i \<le> length d. id_re (rev (take i d) @ [], drop i d, Map.empty) = []"
  proof (intro allI impI)
    fix i assume "i \<le> length d"
    from search_NoneD[OF assms[unfolded match_def] this]
    show "id_re (rev (take i d) @ [], drop i d, Map.empty) = []"
      unfolding id_re0_Nil_iff id_re_Nil_iff .
  qed
  then show "match id_re d = None" unfolding match_def search_None_iff .
  from assms show "replace_first id_re0 [] d = d" by (simp add: replace_first_def)
qed

lemma sep_clean_date_id:
  assumes "\<not> includes_str (js ''<>'') d" "\<not> includes_str (js ''<>'') x"
  shows "\<not> includes_str (js ''<>'') (d @ (if x \<noteq> [] then js '' ID:'' @ x else []))"
proof (cases "x = []")
  case True
  with assms show ?thesis by simp
next
  case False
  have a: "\<not> includes_str [0x3C, 0x3E] (js '' ID:'')" by (simp add: js_def)
  from assms have c: "\<not> includes_str [0x3C, 0x3E] d" "\<not> includes_str [0x3C, 0x3E] x"
    by (simp_all add: js_sep)
  have "\<not> includes_str [0x3C, 0x3E] (js '' ID:'' @ x)"
    using a c(2) by (rule includes_sep_append) (simp add: js_def)
  with c(1) have "\<not> includes_str [0x3C, 0x3E] (d @ js '' ID:'' @ x)"
    by (rule includes_sep_append) (simp add: js_def)
  with False show ?thesis by (simp add: js_sep)
qed

lemma split_datLine:
  assumes "\<not> includes_str (js ''<>'') (name p)" "\<not> includes_str (js ''<>'') (mail p)"
    "\<not> includes_str (js ''<>'') (date p)" "\<not> includes_str (js ''<>'') (id_post p)"
    "\<not> includes_str (js ''<>'') (message p)"
  shows "split (js ''<>'') (datLine p) =
           [name p, mail p, date p @ (if id_post p \<noteq> [] then js '' ID:'' @ id_post p else []),
            message p, []]"
proof -
  have e: "datLine p = name p @ js ''<>'' @ mail p @ js ''<>'' @
             (date p @ (if id_post p \<noteq> [] then js '' ID:'' @ id_post p else [])) @ js ''<>'' @
             message p @ js ''<>'' @ []"
    by (simp add: datLine_def)
  have n: "split (js ''<>'') [] = [[]]" by (simp add: split_def js_sep)
  show ?thesis
    unfolding e
    using split_four_fields[OF assms(1,2) sep_clean_date_id[OF assms(3,4)] assms(5), of "[]"]
    by (simp only: n)
qed

lemma post_eq:
  "\<lparr>name = name p, mail = mail p, date = date p, id_post = id_post p, message = message p\<rparr> = (p :: post)"
  by simp

lemma isWhiteSpace_space: "isWhiteSpace 0x20"
  by (simp add: isWhiteSpace_def)

lemma linePost_datLine:
  assumes "name p \<noteq> []" "trim (date p) = date p" "list_all notWhiteSpace (id_post p)"
    "match id_re0 (date p) = None" "msg (message p) = message p"
  shows "linePost msg [name p, mail p, date p @ (if id_post p \<noteq> [] then js '' ID:'' @ id_post p else []),
                       message p, []] = p"
proof (cases "id_post p = []")
  case True
  from date_no_id[OF assms(4)] have "match id_re (date p) = None"
    "replace_first id_re0 [] (date p) = date p" by blast+
  with True assms(1,2,5) have "linePost msg [name p, mail p, date p @ (if id_post p \<noteq> [] then js '' ID:'' @ id_post p else []),
                       message p, []] =
       \<lparr>name = name p, mail = mail p, date = date p, id_post = id_post p, message = message p\<rparr>"
    by (simp add: linePost_def)
  then show ?thesis unfolding post_eq .
next
  case False
  from date_id_match[OF assms(4) False assms(3)] obtain m where
    m: "match id_re (date p @ js '' ID:'' @ id_post p) = Some m" "group_of m 1 = id_post p"
    and r: "replace_first id_re0 [] (date p @ js '' ID:'' @ id_post p) = date p @ [0x20]"
    by blast
  have t: "trim (date p @ [0x20]) = date p"
    using trim_snoc_space[OF isWhiteSpace_space, of "date p"] assms(2) by simp
  from False m r t assms(1,5) have "linePost msg [name p, mail p, date p @ (if id_post p \<noteq> [] then js '' ID:'' @ id_post p else []),
                       message p, []] =
       \<lparr>name = name p, mail = mail p, date = date p, id_post = id_post p, message = message p\<rparr>"
    by (simp add: linePost_def)
  then show ?thesis unfolding post_eq .
qed

lemma notWhiteSpace_no_LF: "list_all notWhiteSpace x \<Longrightarrow> LF \<notin> set x"
  by (induction x) (auto simp: notWhiteSpace_def isWhiteSpace_def LF_def)

lemma datLine_no_LF:
  assumes "LF \<notin> set (name p)" "LF \<notin> set (mail p)" "LF \<notin> set (date p)" "LF \<notin> set (message p)"
    "list_all notWhiteSpace (id_post p)"
  shows "LF \<notin> set (datLine p)"
  using assms notWhiteSpace_no_LF[OF assms(5)] by (simp add: datLine_def js_def LF_def)

lemma parseDat_with_datContent:
  assumes "\<forall>p \<in> set posts.
     name p \<noteq> [] \<and>
     \<not> includes_str (js ''<>'') (name p) \<and> \<not> includes_str (js ''<>'') (mail p) \<and>
     \<not> includes_str (js ''<>'') (date p) \<and> \<not> includes_str (js ''<>'') (id_post p) \<and>
     \<not> includes_str (js ''<>'') (message p) \<and>
     LF \<notin> set (name p) \<and> LF \<notin> set (mail p) \<and> LF \<notin> set (date p) \<and> LF \<notin> set (message p) \<and>
     trim (date p) = date p \<and> list_all notWhiteSpace (id_post p) \<and>
     match id_re0 (date p) = None"
    and msg: "\<forall>p \<in> set posts. msg (message p) = message p"
  shows "parseDat_with msg (datContent posts) = posts"
proof -
  have lf: "\<forall>l \<in> set (map datLine posts). LF \<notin> set l"
  proof
    fix l assume "l \<in> set (map datLine posts)"
    then obtain p where p: "p \<in> set posts" "l = datLine p" by auto
    with assms(1) have "LF \<notin> set (datLine p)"
      by (intro datLine_no_LF) blast+
    with p show "LF \<notin> set l" by simp
  qed
  have "datContent posts = concat (map (\<lambda>l. l @ [LF]) (map datLine posts))"
    by (simp add: datContent_concat comp_def)
  with split_lines[OF lf]
  have sp: "split [LF] (datContent posts) = map datLine posts @ [[]]" by simp
  have f: "filter (\<lambda>l. trim l \<noteq> [] \<and> 4 \<le> length (split (js ''<>'') l)) (map datLine posts @ [[]]) =
           map datLine posts"
  proof -
    have "\<forall>l \<in> set (map datLine posts). trim l \<noteq> [] \<and> 4 \<le> length (split (js ''<>'') l)"
    proof
      fix l assume "l \<in> set (map datLine posts)"
      then obtain p where p: "p \<in> set posts" "l = datLine p" by auto
      with assms(1) have "split (js ''<>'') (datLine p) =
           [name p, mail p, date p @ (if id_post p \<noteq> [] then js '' ID:'' @ id_post p else []),
            message p, []]"
        by (intro split_datLine) blast+
      then have "4 \<le> length (split (js ''<>'') (datLine p))" by simp
      with p datLine_trim[of p] show "trim l \<noteq> [] \<and> 4 \<le> length (split (js ''<>'') l)" by simp
    qed
    then have "filter (\<lambda>l. trim l \<noteq> [] \<and> 4 \<le> length (split (js ''<>'') l)) (map datLine posts) =
               map datLine posts"
      by (simp only: filter_True)
    then show ?thesis by (simp add: trim_Nil)
  qed
  have "parseDat_with msg (datContent posts) =
          map (\<lambda>l. linePost msg (split (js ''<>'') l)) (map datLine posts)"
    unfolding parseDat_with_map sp f ..
  also have "\<dots> = map (\<lambda>p. p) posts"
    unfolding map_map comp_def
  proof (rule map_cong[OF refl])
    fix p assume p: "p \<in> set posts"
    with assms(1) have s: "split (js ''<>'') (datLine p) =
           [name p, mail p, date p @ (if id_post p \<noteq> [] then js '' ID:'' @ id_post p else []),
            message p, []]"
      by (intro split_datLine) blast+
    from p assms(1) msg have "linePost msg [name p, mail p,
              date p @ (if id_post p \<noteq> [] then js '' ID:'' @ id_post p else []), message p, []] = p"
      by (intro linePost_datLine) blast+
    then show "linePost msg (split (js ''<>'') (datLine p)) = p" unfolding s .
  qed
  finally show ?thesis by simp
qed

lemma replace_all_no_match:
  "(\<And>i. i \<le> length s \<Longrightarrow> m (rev (take i s) @ b, drop i s, Map.empty) = []) \<Longrightarrow>
   replace_all m f a b s = (s, a)"
proof (induction s arbitrary: b)
  case Nil
  from Nil[of 0] show ?case by simp
next
  case (Cons c cs)
  from Cons.prems[of 0] have z: "m (b, c # cs, Map.empty) = []" by simp
  have "replace_all m f a (c # b) cs = (cs, a)"
  proof (rule Cons.IH)
    fix i assume "i \<le> length cs"
    then have "Suc i \<le> length (c # cs)" by simp
    from Cons.prems[OF this] show "m (rev (take i cs) @ c # b, drop i cs, Map.empty) = []" by simp
  qed
  with z show ?case by simp
qed

lemma not_includes_startsWith_drop:
  "\<not> includes_str p s \<Longrightarrow> \<not> startsWith p (drop i s)"
proof (induction s arbitrary: i)
  case Nil
  then show ?case by simp
next
  case (Cons c cs)
  then show ?case by (cases i) auto
qed

lemma replace_g_br_id:
  assumes "\<not> includes_str (js ''<br>'') s"
  shows "replace_g br_re f s = s"
proof -
  have "replace_all br_re (\<lambda>a r. (f r, a)) () [] s = (s, ())"
  proof (rule replace_all_no_match)
    fix i
    from not_includes_startsWith_drop[OF assms, of i]
    show "br_re (rev (take i s) @ [], drop i s, Map.empty) = []"
      by (simp add: br_re_def lit_eq)
  qed
  then show ?thesis by (simp add: replace_g_def)
qed

lemma no_id_date1: "match id_re0 (js ''2020/01/01(Wed) 12:00:00.00'') = None"
proof -
  have "case match id_re0 (js ''2020/01/01(Wed) 12:00:00.00'') of None \<Rightarrow> True | Some r \<Rightarrow> False"
    by code_simp
  then show ?thesis by (simp split: option.splits)
qed

lemma no_id_date2: "match id_re0 [] = None"
proof -
  have "case match id_re0 [] of None \<Rightarrow> True | Some r \<Rightarrow> False"
    by code_simp
  then show ?thesis by (simp split: option.splits)
qed

text \<open>
  Claim C1, as stated, fails. Each post below has no \<open><>\<close> in any field, and is not
  returned by the parser from its serialisation: an empty name becomes the placeholder; a
  date with a blank in front is trimmed; an id with a blank is cut at the blank; a date
  that holds \<open>ID:x\<close> loses it to the id; a line feed in a field ends the line.
\<close>

theorem roundtrip_fails:
  "parseDatFile (datContent [\<lparr>name = [], mail = [], date = js ''d'', id_post = js ''x'', message = js ''m''\<rparr>]) \<noteq>
     [\<lparr>name = [], mail = [], date = js ''d'', id_post = js ''x'', message = js ''m''\<rparr>] \<and>
   parseDatFile (datContent [\<lparr>name = js ''n'', mail = [], date = js '' d'', id_post = js ''x'', message = js ''m''\<rparr>]) \<noteq>
     [\<lparr>name = js ''n'', mail = [], date = js '' d'', id_post = js ''x'', message = js ''m''\<rparr>] \<and>
   parseDatFile (datContent [\<lparr>name = js ''n'', mail = [], date = js ''d'', id_post = js ''x y'', message = js ''m''\<rparr>]) \<noteq>
     [\<lparr>name = js ''n'', mail = [], date = js ''d'', id_post = js ''x y'', message = js ''m''\<rparr>] \<and>
   parseDatFile (datContent [\<lparr>name = js ''n'', mail = [], date = js ''ID:x'', id_post = [], message = js ''m''\<rparr>]) \<noteq>
     [\<lparr>name = js ''n'', mail = [], date = js ''ID:x'', id_post = [], message = js ''m''\<rparr>] \<and>
   parseDatFile (datContent [\<lparr>name = js ''n'', mail = [], date = js ''d'', id_post = js ''x'', message = [LF]\<rparr>]) \<noteq>
     [\<lparr>name = js ''n'', mail = [], date = js ''d'', id_post = js ''x'', message = [LF]\<rparr>]"
  by code_simp

text \<open>
  Claim C1, amended. Serialising and parsing again returns the posts when, for every
  post, the name is not empty; no field contains \<open><>\<close>; name, mail, date and message
  contain no line feed; the date has no white space at either end and no match of the id
  pattern \<open>/ID:[^\s]+/\<close>; and the id contains no white space. For the parser of
  \<open>src/app/page.tsx\<close> the messages must moreover contain no \<open><br>\<close>.
\<close>

theorem parseDatFile_datContent_roundtrip:
  assumes "\<forall>p \<in> set posts.
     name p \<noteq> [] \<and>
     \<not> includes_str (js ''<>'') (name p) \<and> \<not> includes_str (js ''<>'') (mail p) \<and>
     \<not> includes_str (js ''<>'') (date p) \<and> \<not> includes_str (js ''<>'') (id_post p) \<and>
     \<not> includes_str (js ''<>'') (message p) \<and>
     LF \<notin> set (name p) \<and> LF \<notin> set (mail p) \<and> LF \<notin> set (date p) \<and> LF \<notin> set (message p) \<and>
     trim (date p) = date p \<and> list_all notWhiteSpace (id_post p) \<and>
     match id_re0 (date p) = None"
  shows "parseDatFile (datContent posts) = posts \<and>
         ((\<forall>p \<in> set posts. \<not> includes_str (js ''<br>'') (message p)) \<longrightarrow>
            parseDatFile_page (datContent posts) = posts)"
proof
  show "parseDatFile (datContent posts) = posts"
    unfolding parseDatFile_def using assms by (rule parseDat_with_datContent) simp
  show "(\<forall>p \<in> set posts. \<not> includes_str (js ''<br>'') (message p)) \<longrightarrow>
            parseDatFile_page (datContent posts) = posts"
  proof
    assume "\<forall>p \<in> set posts. \<not> includes_str (js ''<br>'') (message p)"
    then have "\<forall>p \<in> set posts. replace_g br_re (\<lambda>r. [LF]) (message p) = message p"
      by (simp add: replace_g_br_id)
    with assms show "parseDatFile_page (datContent posts) = posts"
      unfolding parseDatFile_page_def by (rule parseDat_with_datContent)
  qed
qed

theorem parseDatFile_datContent_roundtrip_witness:
  "parseDatFile (datContent
     [\<lparr>name = js ''a'', mail = js ''sage'', date = js ''2020/01/01(Wed) 12:00:00.00'',
       id_post = js ''AbC+/d0'', message = js ''hello <b>you</b>''\<rparr>,
      \<lparr>name = js ''b'', mail = [], date = [], id_post = [], message = []\<rparr>]) =
     [\<lparr>name = js ''a'', mail = js ''sage'', date = js ''2020/01/01(Wed) 12:00:00.00'',
       id_post = js ''AbC+/d0'', message = js ''hello <b>you</b>''\<rparr>,
      \<lparr>name = js ''b'', mail = [], date = [], id_post = [], message = []\<rparr>] \<and>
   parseDatFile_page (datContent
     [\<lparr>name = js ''a'', mail = js ''sage'', date = js ''2020/01/01(Wed) 12:00:00.00'',
       id_post = js ''AbC+/d0'', message = js ''hello <b>you</b>''\<rparr>,
      \<lparr>name = js ''b'', mail = [], date = [], id_post = [], message = []\<rparr>]) =
     [\<lparr>name = js ''a'', mail = js ''sage'', date = js ''2020/01/01(Wed) 12:00:00.00'',
       id_post = js ''AbC+/d0'', message = js ''hello <b>you</b>''\<rparr>,
      \<lparr>name = js ''b'', mail = [], date = [], id_post = [], message = []\<rparr>]"
proof -
  let ?p1 = "\<lparr>name = js ''a'', mail = js ''sage'', date = js ''2020/01/01(Wed) 12:00:00.00'',
       id_post = js ''AbC+/d0'', message = js ''hello <b>you</b>''\<rparr>"
  let ?p2 = "\<lparr>name = js ''b'', mail = [], date = [], id_post = [], message = []\<rparr>"
  have a1: "name ?p1 \<noteq> [] \<and>
     \<not> includes_str (js ''<>'') (name ?p1) \<and> \<not> includes_str (js ''<>'') (mail ?p1) \<and>
     \<not> includes_str (js ''<>'') (date ?p1) \<and> \<not> includes_str (js ''<>'') (id_post ?p1) \<and>
     \<not> includes_str (js ''<>'') (message ?p1) \<and>
     LF \<notin> set (name ?p1) \<and> LF \<notin> set (mail ?p1) \<and> LF \<notin> set (date ?p1) \<and> LF \<notin> set (message ?p1) \<and>
     trim (date ?p1) = date ?p1 \<and> list_all notWhiteSpace (id_post ?p1)"
    by code_simp
  have a2: "name ?p2 \<noteq> [] \<and>
     \<not> includes_str (js ''<>'') (name ?p2) \<and> \<not> includes_str (js ''<>'') (mail ?p2) \<and>
     \<not> includes_str (js ''<>'') (date ?p2) \<and> \<not> includes_str (js ''<>'') (id_post ?p2) \<and>
     \<not> includes_str (js ''<>'') (message ?p2) \<and>
     LF \<notin> set (name ?p2) \<and> LF \<notin> set (mail ?p2) \<and> LF \<notin> set (date ?p2) \<and> LF \<notin> set (message ?p2) \<and>
     trim (date ?p2) = date ?p2 \<and> list_all notWhiteSpace (id_post ?p2)"
    by code_simp
  have m1: "match id_re0 (date ?p1) = None" using no_id_date1 by simp
  have m2: "match id_re0 (date ?p2) = None" using no_id_date2 by simp
  have b: "\<not> includes_str (js ''<br>'') (message ?p1)" "\<not> includes_str (js ''<br>'') (message ?p2)"
    by code_simp+
  have H: "\<forall>p \<in> set [?p1, ?p2].
     name p \<noteq> [] \<and>
     \<not> includes_str (js ''<>'') (name p) \<and> \<not> includes_str (js ''<>'') (mail p) \<and>
     \<not> includes_str (js ''<>'') (date p) \<and> \<not> includes_str (js ''<>'') (id_post p) \<and>
     \<not> includes_str (js ''<>'') (message p) \<and>
     LF \<notin> set (name p) \<and> LF \<notin> set (mail p) \<and> LF \<notin> set (date p) \<and> LF \<notin> set (message p) \<and>
     trim (date p) = date p \<and> list_all notWhiteSpace (id_post p) \<and>
     match id_re0 (date p) = None"
    using a1 a2 m1 m2 by (simp only: list.set ball_simps) blast
  have B: "\<forall>p \<in> set [?p1, ?p2]. \<not> includes_str (js ''<br>'') (message p)"
    using b by (simp only: list.set ball_simps) blast
  from parseDatFile_datContent_roundtrip[OF H] B show ?thesis by blast
qed

end
